theory Spec2Isabelle
  imports Main "HOL-Library.Word" "HOL-Library.Multiset"
begin

unbundle bit_operations_syntax

section \<open>Shamir's Secret Sharing over GF(2^8): the model\<close>

type_synonym byte = "8 word"

subsection \<open>The field\<close>

text \<open>
  The Go file that implements \<open>mul\<close> and \<open>div\<close> is not among the sources; only their
  callers (\<open>eval\<close>, \<open>interpolate\<close>) are. The three definitions below follow the
  specification, section 4.1: addition is XOR, multiplication is a carry-less multiply reduced
  modulo the fixed irreducible polynomial of degree 8 (the conventional
  \<open>x^8 + x^4 + x^3 + x + 1\<close>, \<open>0x11b\<close>), and \<open>div(a, b) = mul(a, inverse(b))\<close>, failing
  loudly when \<open>b = 0\<close>.
\<close>

text \<open>Modelled from the spec: multiplication by the field element \<open>x\<close> (\<open>0x02\<close>), one
  shift followed by the reduction modulo \<open>0x11b\<close>; a step of the absent \<open>mul\<close>.\<close>

definition xtime :: "byte \<Rightarrow> byte" where
  "xtime a = (if bit a 7 then push_bit 1 a XOR 0x1b else push_bit 1 a)"

text \<open>Modelled from the spec: the absent \<open>mul\<close>, as the carry-less shift-and-add product
  reduced modulo the irreducible polynomial. The loop adds \<open>a * x^i\<close> for every set bit
  \<open>i\<close> of \<open>b\<close>.\<close>

fun mul_loop :: "nat \<Rightarrow> byte \<Rightarrow> byte \<Rightarrow> byte" where
  "mul_loop 0 a b = 0"
| "mul_loop (Suc n) a b =
     (if bit b 0 then a else 0) XOR mul_loop n (xtime a) (drop_bit 1 b)"

definition mul :: "byte \<Rightarrow> byte \<Rightarrow> byte" where
  "mul a b = mul_loop 8 a b"

text \<open>Modelled from the spec: powers in the field, and the inverse of the absent \<open>div\<close>
  as \<open>b^254\<close> (the multiplicative group of the field has 255 elements).\<close>

fun gpow :: "byte \<Rightarrow> nat \<Rightarrow> byte" where
  "gpow a 0 = 1"
| "gpow a (Suc n) = mul a (gpow a n)"

definition inverse_gf :: "byte \<Rightarrow> byte" where
  "inverse_gf b = gpow b 254"

subsection \<open>Errors, panics and results\<close>

text \<open>
  The errors a random source can report. \<open>io.ReadFull\<close> turns an end of input after a
  partial read into \<open>ErrUnexpectedEOF\<close>; every other error is passed on unchanged.
\<close>

datatype io_error = EOF | ErrUnexpectedEOF | ReadFailure nat

text \<open>The error values a call can return, and the run-time panics of Go.\<close>

datatype error = ErrInvalidCount | ErrInvalidThreshold | ErrIO io_error

datatype panic = IndexOutOfRange | SliceBounds | DivideByZero

datatype failure = Error error | Panic panic

type_synonym 'a result = "failure + 'a"

text \<open>Modelled from the spec: the absent \<open>div\<close>, \<open>mul(a, inverse(b))\<close>, which fails
  loudly (a panic) when the divisor is zero.\<close>

definition div_gf :: "byte \<Rightarrow> byte \<Rightarrow> byte result" where
  "div_gf a b = (if b = 0 then Inl (Panic DivideByZero) else Inr (mul a (inverse_gf b)))"

subsection \<open>The random source\<close>

text \<open>
  An \<open>io.Reader\<close> is modelled by the script of what it will deliver: a finite list of
  events, each one byte or one failing read; after the script it reports \<open>EOF\<close> forever.
  \<open>ReadFull n\<close> is \<open>io.ReadFull\<close> on a buffer of \<open>n\<close> bytes: it returns the bytes
  and the rest of the script, or the error that stopped it. A buffer of length 0 reads
  nothing and succeeds.
\<close>

datatype read_event = Byte byte | Fail io_error

type_synonym reader = "read_event list"

fun ReadFull :: "nat \<Rightarrow> reader \<Rightarrow> (io_error + byte list) \<times> reader" where
  "ReadFull 0 rnd = (Inr [], rnd)"
| "ReadFull (Suc n) [] = (Inl EOF, [])"
| "ReadFull (Suc n) (Fail e # rnd) = (Inl e, rnd)"
| "ReadFull (Suc n) (Byte b # rnd) =
     (case ReadFull n rnd of
        (Inr bs, rnd') \<Rightarrow> (Inr (b # bs), rnd')
      | (Inl e, rnd') \<Rightarrow> (Inl (if e = EOF then ErrUnexpectedEOF else e), rnd'))"

subsection \<open>Polynomials\<close>

text \<open>
  \<open>eval\<close>: the loop \<open>for i := 1; i <= len(p); i++ { result = mul(result, x) ^ p[len(p)-i] }\<close>.
\<close>

function eval_loop :: "byte list \<Rightarrow> byte \<Rightarrow> nat \<Rightarrow> byte \<Rightarrow> byte" where
  "eval_loop p x i result =
     (if i \<le> length p then eval_loop p x (i + 1) (mul result x XOR p ! (length p - i))
      else result)"
  by pat_completeness auto
termination
  by (relation "measure (\<lambda>(p, x, i, result). length p + 1 - i)") auto

declare eval_loop.simps [simp del]

definition eval :: "byte list \<Rightarrow> byte \<Rightarrow> byte" where
  "eval p x = eval_loop p x 1 0"

text \<open>The sum of the field: XOR over a list of bytes.\<close>

definition xor_sum :: "byte list \<Rightarrow> byte" where
  "xor_sum xs = foldr (XOR) xs 0"

text \<open>
  The loop of \<open>eval\<close> once more, counting the calls of \<open>mul\<close> (one per iteration)
  instead of computing the result.
\<close>

function eval_count :: "byte list \<Rightarrow> nat \<Rightarrow> nat \<Rightarrow> nat" where
  "eval_count p i n = (if i \<le> length p then eval_count p (i + 1) (n + 1) else n)"
  by pat_completeness auto
termination
  by (relation "measure (\<lambda>(p, i, n). length p + 1 - i)") auto

declare eval_count.simps [simp del]

text \<open>
  \<open>generate\<close>. The degree is a byte, so \<open>degree+1\<close> and \<open>degree-1\<close> wrap around: with
  \<open>degree = 255\<close> the result slice is empty and \<open>result[0] = x\<close> panics; with
  \<open>degree = 0\<close> the buffer has 255 bytes.
  The rejection loop reads one byte at a time until a byte is not zero; a failing read
  ends it with the error.
\<close>

lemma ReadFull_consumes:
  "ReadFull (Suc n) rnd = (Inr bs, rnd') \<Longrightarrow> length rnd' < length rnd"
proof (induction n arbitrary: rnd bs)
  case 0
  show ?case
  proof (cases rnd)
    case Nil
    with 0 show ?thesis by simp
  next
    case (Cons ev rest)
    with 0 show ?thesis by (cases ev) auto
  qed
next
  case (Suc n)
  show ?case
  proof (cases rnd)
    case Nil
    with Suc.prems show ?thesis by simp
  next
    case (Cons ev rest)
    with Suc.prems obtain b where ev: "ev = Byte b" by (cases ev) auto
    from Suc.prems Cons ev obtain bs' where "ReadFull (Suc n) rest = (Inr bs', rnd')"
      by (auto split: prod.splits sum.splits)
    from Suc.IH [OF this] Cons show ?thesis by simp
  qed
qed

function leading_loop :: "reader \<Rightarrow> (io_error + byte) \<times> reader" where
  "leading_loop rnd =
     (case ReadFull 1 rnd of
        (Inl e, rnd') \<Rightarrow> (Inl e, rnd')
      | (Inr buf, rnd') \<Rightarrow>
          (if buf ! 0 \<noteq> 0 then (Inr (buf ! 0), rnd') else leading_loop rnd'))"
  by pat_completeness auto
termination
proof (relation "measure length")
  show "wf (measure length)" by simp
next
  fix rnd :: reader and x buf rnd'
  assume "(x, rnd') = ReadFull 1 rnd" "x = Inr buf"
  then have "ReadFull (Suc 0) rnd = (Inr buf, rnd')" by simp
  from ReadFull_consumes [OF this] show "(rnd', rnd) \<in> measure length" by simp
qed

declare leading_loop.simps [simp del]

definition generate :: "byte \<Rightarrow> byte \<Rightarrow> reader \<Rightarrow> byte list result \<times> reader" where
  "generate degree x rnd =
     (let result = replicate (unat (degree + 1)) (0 :: byte) in
      if length result = 0 then (Inl (Panic IndexOutOfRange), rnd)
      else
        let result = result[0 := x] in
        case ReadFull (unat (degree - 1)) rnd of
          (Inl e, rnd') \<Rightarrow> (Inl (Error (ErrIO e)), rnd')
        | (Inr buf, rnd') \<Rightarrow>
            let result = fold (\<lambda>i r. r[i := buf ! (i - 1)]) [1..<unat degree] result in
            (case leading_loop rnd' of
               (Inl e, rnd'') \<Rightarrow> (Inl (Error (ErrIO e)), rnd'')
             | (Inr b, rnd'') \<Rightarrow> (Inr (result[unat degree := b]), rnd'')))"

text \<open>
  \<open>generateRand\<close>: one read of \<open>k * len(secret)\<close> bytes, then for every byte of the
  secret the row's first slot is set to it and the row's last slot, at \<open>start + (k - 1)\<close>,
  is read again, one byte at a time, while it is zero. The degree \<open>k - 1\<close> is a byte.
\<close>

function redraw_loop :: "byte list \<Rightarrow> nat \<Rightarrow> reader \<Rightarrow> byte list result \<times> reader" where
  "redraw_loop result nextDegree rnd =
     (if length result \<le> nextDegree then (Inl (Panic IndexOutOfRange), rnd)
      else if result ! nextDegree \<noteq> 0 then (Inr result, rnd)
      else (case ReadFull 1 rnd of
              (Inl e, rnd') \<Rightarrow> (Inl (Error (ErrIO e)), rnd')
            | (Inr buf, rnd') \<Rightarrow> redraw_loop (result[nextDegree := buf ! 0]) nextDegree rnd'))"
  by pat_completeness auto
termination
proof (relation "measure (\<lambda>(result, nextDegree, rnd). length rnd)")
  show "wf (measure (\<lambda>(result, nextDegree, rnd). length rnd))" by simp
next
  fix result :: "byte list" and nextDegree :: nat and rnd :: reader and x buf rnd'
  assume "(x, rnd') = ReadFull 1 rnd" "x = Inr buf"
  then have "ReadFull (Suc 0) rnd = (Inr buf, rnd')" by simp
  from ReadFull_consumes [OF this]
  show "((result[nextDegree := buf ! 0], nextDegree, rnd'), (result, nextDegree, rnd))
      \<in> measure (\<lambda>(result, nextDegree, rnd). length rnd)" by simp
qed

declare redraw_loop.simps [simp del]

fun generateRand_loop :: "byte \<Rightarrow> byte list \<Rightarrow> nat \<Rightarrow> byte list \<Rightarrow> reader \<Rightarrow> byte list result \<times> reader" where
  "generateRand_loop k [] start result rnd = (Inr result, rnd)"
| "generateRand_loop k (b # bs) start result rnd =
     (if length result \<le> start then (Inl (Panic IndexOutOfRange), rnd)
      else
        (case redraw_loop (result[start := b]) (start + unat (k - 1)) rnd of
           (Inl f, rnd') \<Rightarrow> (Inl f, rnd')
         | (Inr result', rnd') \<Rightarrow> generateRand_loop k bs (start + unat k) result' rnd'))"

definition generateRand :: "byte \<Rightarrow> byte list \<Rightarrow> reader \<Rightarrow> byte list result \<times> reader" where
  "generateRand k secret rnd =
     (case ReadFull (unat k * length secret) rnd of
        (Inl e, rnd') \<Rightarrow> (Inl (Error (ErrIO e)), rnd')
      | (Inr result, rnd') \<Rightarrow> generateRand_loop k secret 0 result rnd')"

text \<open>
  \<open>generatePolys\<close>. The first loop counts with a byte up to \<open>byte(len(x))\<close>, so only the
  first \<open>len(x) mod 256\<close> rows are allocated; the others stay nil.
\<close>

fun alloc_rows :: "byte \<Rightarrow> byte list \<Rightarrow> nat list \<Rightarrow> byte list list \<Rightarrow> byte list list result" where
  "alloc_rows degree x [] results = Inr results"
| "alloc_rows degree x (i # is) results =
     (let row = replicate (unat (degree + 1)) (0 :: byte) in
      if length row = 0 then Inl (Panic IndexOutOfRange)
      else alloc_rows degree x is (results[i := row[0 := x ! i]]))"

text \<open>
  The second loop: \<open>results[i][j] = buf[byte(i)*(degree)+j-1]\<close> for \<open>j\<close> from 1 while
  \<open>j <= degree\<close>. The index into \<open>buf\<close> is computed in bytes, modulo 256. The counter
  \<open>j\<close> is a byte: with \<open>degree = 255\<close> the test never fails.
\<close>

partial_function (option) fill_row :: "byte list \<Rightarrow> byte list \<Rightarrow> nat \<Rightarrow> byte \<Rightarrow> byte \<Rightarrow> byte list result option" where
  "fill_row row buf i degree j =
     (if j \<le> degree then
        (if length row \<le> unat j \<or> length buf \<le> unat (word_of_nat i * degree + j - 1)
         then Some (Inl (Panic IndexOutOfRange))
         else fill_row (row[unat j := buf ! unat (word_of_nat i * degree + j - 1)]) buf i degree (j + 1))
      else Some (Inr row))"

fun fill_rows :: "nat list \<Rightarrow> byte list list \<Rightarrow> byte list \<Rightarrow> byte \<Rightarrow> byte list list result option" where
  "fill_rows [] results buf degree = Some (Inr results)"
| "fill_rows (i # is) results buf degree =
     (case fill_row (results ! i) buf i degree 1 of
        None \<Rightarrow> None
      | Some (Inl f) \<Rightarrow> Some (Inl f)
      | Some (Inr row) \<Rightarrow> fill_rows is (results[i := row]) buf degree)"

text \<open>
  The third loop draws the leading coefficient of every row. A read that fails and a byte
  that is zero are treated alike: \<open>i--\<close> and \<open>continue\<close>, so the same row is tried again
  with the next read, for as long as it takes.
\<close>

partial_function (option) leading_rows ::
    "byte list list \<Rightarrow> nat \<Rightarrow> nat \<Rightarrow> byte \<Rightarrow> reader \<Rightarrow> (byte list list result \<times> reader) option" where
  "leading_rows results i n degree rnd =
     (if i < n then
        (case ReadFull 1 rnd of
           (Inl e, rnd') \<Rightarrow> leading_rows results i n degree rnd'
         | (Inr buf, rnd') \<Rightarrow>
             (if buf ! 0 \<noteq> 0 then
                (if length (results ! i) \<le> unat degree then Some (Inl (Panic IndexOutOfRange), rnd')
                 else leading_rows (results[i := (results ! i)[unat degree := buf ! 0]]) (i + 1) n degree rnd')
              else leading_rows results i n degree rnd'))
      else Some (Inr results, rnd))"

definition generatePolys :: "byte \<Rightarrow> byte list \<Rightarrow> reader \<Rightarrow> (byte list list result \<times> reader) option" where
  "generatePolys degree x rnd =
     (case alloc_rows degree x [0..<length x mod 256] (replicate (length x) []) of
        Inl f \<Rightarrow> Some (Inl f, rnd)
      | Inr results \<Rightarrow>
          (case ReadFull (unat degree * length x) rnd of
             (Inl e, rnd') \<Rightarrow> Some (Inl (Error (ErrIO e)), rnd')
           | (Inr buf, rnd') \<Rightarrow>
               (case fill_rows [0..<length x] results buf degree of
                  None \<Rightarrow> None
                | Some (Inl f) \<Rightarrow> Some (Inl f, rnd')
                | Some (Inr results') \<Rightarrow> leading_rows results' 0 (length x) degree rnd')))"



subsection \<open>Split\<close>

type_synonym shares = "byte \<rightharpoonup> byte list"

text \<open>
  \<open>shares[x] = append(shares[x], c)\<close>: a missing key reads as the nil slice.
\<close>

definition append_share :: "shares \<Rightarrow> byte \<Rightarrow> byte \<Rightarrow> shares" where
  "append_share sh x c = sh(x \<mapsto> (case sh x of None \<Rightarrow> [] | Some v \<Rightarrow> v) @ [c])"

text \<open>
  The inner loop \<open>for x := byte(1); x <= n; x++\<close>. The counter is a byte: with
  \<open>n = 255\<close> the test \<open>x <= n\<close> never fails and \<open>x++\<close> wraps to 0, so the loop does
  not end. Not returning is the value \<open>None\<close>.
\<close>

partial_function (option) share_loop :: "byte \<Rightarrow> byte list \<Rightarrow> byte \<Rightarrow> shares \<Rightarrow> shares option" where
  "share_loop n p x sh =
     (if x \<le> n then share_loop n p (x + 1) (append_share sh x (eval p x)) else Some sh)"

fun split_loop :: "byte \<Rightarrow> byte \<Rightarrow> byte list \<Rightarrow> shares \<Rightarrow> reader \<Rightarrow> (shares result \<times> reader) option" where
  "split_loop n k [] sh rnd = Some (Inr sh, rnd)"
| "split_loop n k (b # bs) sh rnd =
     (case generate (k - 1) b rnd of
        (Inl f, rnd') \<Rightarrow> Some (Inl f, rnd')
      | (Inr p, rnd') \<Rightarrow>
          (case share_loop n p 1 sh of
             None \<Rightarrow> None
           | Some sh' \<Rightarrow> split_loop n k bs sh' rnd'))"

definition Split :: "byte \<Rightarrow> byte \<Rightarrow> byte list \<Rightarrow> reader \<Rightarrow> (shares result \<times> reader) option" where
  "Split n k secret rnd =
     (if k \<le> 1 then Some (Inl (Error ErrInvalidThreshold), rnd)
      else if n < k then Some (Inl (Error ErrInvalidCount), rnd)
      else split_loop n k secret Map.empty rnd)"

subsection \<open>Lagrange interpolation\<close>

text \<open>\<open>type pair struct { x, y byte }\<close>: an input/output pair.\<close>

record pair =
  px :: byte
  py :: byte

text \<open>
  \<open>interpolate\<close>: for every point \<open>a\<close> (index \<open>i\<close>) the inner loop multiplies the
  factors \<open>div(x ^ b.x, a.x ^ b.x)\<close> of all points \<open>b\<close> at another index \<open>j\<close>; the
  outer loop adds \<open>mul(weight, a.y)\<close>. A division by zero panics and ends the call.
\<close>

fun weight_loop :: "pair list \<Rightarrow> nat \<Rightarrow> nat \<Rightarrow> pair \<Rightarrow> byte \<Rightarrow> byte \<Rightarrow> byte result" where
  "weight_loop [] j i a x weight = Inr weight"
| "weight_loop (b # bs) j i a x weight =
     (if i \<noteq> j then
        (case div_gf (x XOR px b) (px a XOR px b) of
           Inl f \<Rightarrow> Inl f
         | Inr factor \<Rightarrow> weight_loop bs (j + 1) i a x (mul weight factor))
      else weight_loop bs (j + 1) i a x weight)"

fun interpolate_loop :: "pair list \<Rightarrow> pair list \<Rightarrow> nat \<Rightarrow> byte \<Rightarrow> byte \<Rightarrow> byte result" where
  "interpolate_loop points [] i x val = Inr val"
| "interpolate_loop points (a # as) i x val =
     (case weight_loop points 0 i a x 1 of
        Inl f \<Rightarrow> Inl f
      | Inr weight \<Rightarrow> interpolate_loop points as (i + 1) x (val XOR mul weight (py a)))"

definition interpolate :: "pair list \<Rightarrow> byte \<Rightarrow> byte result" where
  "interpolate points x = interpolate_loop points points 0 x 0"

subsection \<open>Combine\<close>

text \<open>
  Go enumerates a map in an order of its own choosing, a new one for every \<open>range\<close>
  statement. The order is a parameter of the model: \<open>ord t\<close> is the sequence of keys
  that the \<open>t\<close>-th \<open>range\<close> over the map delivers, and a call is described for every
  \<open>ord\<close> whose sequences enumerate the keys of the map.
\<close>

definition enumerates :: "byte list \<Rightarrow> shares \<Rightarrow> bool" where
  "enumerates ks sh \<longleftrightarrow> distinct ks \<and> set ks = dom sh"

definition entries :: "shares \<Rightarrow> byte list \<Rightarrow> (byte \<times> byte list) list" where
  "entries sh ks = List.map_filter (\<lambda>k. map_option (Pair k) (sh k)) ks"

text \<open>
  The inner loop of \<open>Combine\<close>, \<open>points[p] = pair{x: k, y: v[i]}\<close> for every entry of
  the map: \<open>v[i]\<close> panics on a share that has no byte \<open>i\<close>.
\<close>

fun points_at :: "(byte \<times> byte list) list \<Rightarrow> nat \<Rightarrow> pair list result" where
  "points_at [] i = Inr []"
| "points_at ((k, v) # es) i =
     (if i < length v then
        (case points_at es i of
           Inl f \<Rightarrow> Inl f
         | Inr ps \<Rightarrow> Inr (\<lparr>px = k, py = v ! i\<rparr> # ps))
      else Inl (Panic IndexOutOfRange))"

text \<open>
  \<open>Combine\<close>: the first \<open>range\<close> (number 0) takes the length of whichever share comes
  first; then position \<open>i\<close> of the secret is interpolated at 0 from the points that
  \<open>range\<close> number \<open>i + 1\<close> delivers.
\<close>

fun combine_loop :: "(nat \<Rightarrow> byte list) \<Rightarrow> shares \<Rightarrow> nat list \<Rightarrow> byte list \<Rightarrow> byte list result" where
  "combine_loop ord sh [] secret = Inr secret"
| "combine_loop ord sh (i # is) secret =
     (case points_at (entries sh (ord (Suc i))) i of
        Inl f \<Rightarrow> Inl f
      | Inr points \<Rightarrow>
          (case interpolate points 0 of
             Inl f \<Rightarrow> Inl f
           | Inr b \<Rightarrow> combine_loop ord sh is (secret[i := b])))"

definition Combine :: "(nat \<Rightarrow> byte list) \<Rightarrow> shares \<Rightarrow> byte list result" where
  "Combine ord sh =
     (let secret = (case entries sh (ord 0) of
                      [] \<Rightarrow> []
                    | (k, v) # rest \<Rightarrow> replicate (length v) (0 :: byte))
      in combine_loop ord sh [0..<length secret] secret)"

subsection \<open>The parallel split\<close>

text \<open>
  \<open>type Input struct\<close> and \<open>type Result struct\<close>. The channel \<open>Ret\<close> of \<open>Input\<close> is not
  part of the record: the worker answers on the channel it was started with. The field
  \<open>N\<close> of \<open>Result\<close> is \<open>Len\<close> here, the name \<open>N\<close> being taken by \<open>Input\<close>.
\<close>

record Input =
  Polys :: "byte list list"
  Secrets :: "byte list"
  N :: byte
  Start :: int
  End :: int

record Result =
  Shares :: "byte list list"
  Index :: int
  Len :: int

text \<open>
  The worker's inner loop \<open>for x := byte(1); x <= m.N; x++\<close> with the body
  \<open>shares[i][int(x)-1] = eval(m.Polys[i], x)\<close>. With \<open>m.N = 255\<close> the counter wraps to 0
  and the index is \<open>-1\<close>, which panics.
\<close>

function worker_row :: "byte list list \<Rightarrow> nat \<Rightarrow> byte \<Rightarrow> byte list \<Rightarrow> byte \<Rightarrow> byte list result" where
  "worker_row polys i n row x =
     (if x \<le> n then
        (if length polys \<le> i \<or> x = 0 \<or> length row \<le> unat x - 1 then Inl (Panic IndexOutOfRange)
         else worker_row polys i n (row[unat x - 1 := eval (polys ! i) x]) (x + 1))
      else Inr row)"
  by pat_completeness auto
termination
proof (relation "measure (\<lambda>(polys, i, n, row, x). if x = 0 then 0 else 256 - unat x)")
  show "wf (measure (\<lambda>(polys, i, n, row, x). if x = 0 then 0 else 256 - unat x))" by simp
next
  fix polys :: "byte list list" and i :: nat and n :: byte and row :: "byte list" and x :: byte
  assume "x \<le> n" "\<not> (length polys \<le> i \<or> x = 0 \<or> length row \<le> unat x - 1)"
  then have x: "x \<noteq> 0" by simp
  have lt: "unat x < 256" using unsigned_less [of x, where 'a = nat] by simp
  have "x + 1 \<noteq> 0 \<Longrightarrow> unat (x + 1) = Suc (unat x)"
    using unatSuc [of x] by (simp add: add.commute)
  with x lt
  show "((polys, i, n, row[unat x - 1 := eval (polys ! i) x], x + 1), (polys, i, n, row, x))
      \<in> measure (\<lambda>(polys, i, n, row, x). if x = 0 then 0 else 256 - unat x)"
    by auto
qed

declare worker_row.simps [simp del]

fun worker_rows :: "Input \<Rightarrow> nat list \<Rightarrow> byte list list \<Rightarrow> byte list list result" where
  "worker_rows m [] shares = Inr shares"
| "worker_rows m (i # is) shares =
     (case worker_row (Polys m) i (N m) (replicate (unat (N m)) 0) 1 of
        Inl f \<Rightarrow> Inl f
      | Inr row \<Rightarrow> worker_rows m is (shares[i := row]))"

text \<open>
  \<open>SplitParallelLoop\<close>, one turn of its loop: the message \<open>m\<close> received on \<open>send\<close> and
  the \<open>Result\<close> sent on \<open>ret\<close> for it.
\<close>

definition SplitParallelLoop :: "Input \<Rightarrow> Result result" where
  "SplitParallelLoop m =
     (case worker_rows m [0..<length (Secrets m)] (replicate (length (Secrets m)) []) of
        Inl f \<Rightarrow> Inl f
      | Inr shares \<Rightarrow> Inr \<lparr>Shares = shares, Index = Start m, Len = int (length (Secrets m))\<rparr>)"

text \<open>
  The dispatch loop of \<open>SplitParallel\<close>: \<open>for i := 0; i < len(secret); i += cpus\<close>, sending
  the chunk that starts at \<open>i\<close> on \<open>send[count]\<close>. Of the slice \<open>send\<close> only the length
  \<open>nsend\<close> matters; \<open>sent\<close> collects the messages, \<open>sent ! c\<close> being the one on \<open>send[c]\<close>.
  The slices \<open>p\<close> and \<open>secret\<close> are taken to have no capacity beyond their length.
\<close>

function dispatch ::
    "byte list list \<Rightarrow> byte list \<Rightarrow> byte \<Rightarrow> int \<Rightarrow> nat \<Rightarrow> int \<Rightarrow> nat \<Rightarrow> Input list \<Rightarrow> Input list result" where
  "dispatch p secret n cpus nsend i cnt sent =
     (if i < int (length secret) then
        (if nsend \<le> cnt then Inl (Panic IndexOutOfRange)
         else if i + cpus \<ge> int (length secret) then
           (if i < 0 \<or> int (length p) < i \<or> int (length secret) < i then Inl (Panic SliceBounds)
            else dispatch p secret n cpus nsend (i + cpus) (cnt + 1)
                   (sent @ [\<lparr>Polys = drop (nat i) p, Secrets = drop (nat i) secret, N = n,
                             Start = i, End = int (length secret) - 1\<rparr>]))
         else
           (if i < 0 \<or> i + cpus < i \<or> int (length p) < i + cpus \<or> int (length secret) < i + cpus
            then Inl (Panic SliceBounds)
            else dispatch p secret n cpus nsend (i + cpus) (cnt + 1)
                   (sent @ [\<lparr>Polys = take (nat cpus) (drop (nat i) p),
                             Secrets = take (nat cpus) (drop (nat i) secret), N = n,
                             Start = i, End = i + cpus - 1\<rparr>])))
      else Inr sent)"
  by pat_completeness auto
termination
  by (relation "measure (\<lambda>(p, secret, n, cpus, nsend, i, cnt, sent). nsend - cnt)") auto

declare dispatch.simps [simp del]

text \<open>The results of the workers; a worker that panics ends the program.\<close>

fun collect :: "'a result list \<Rightarrow> 'a list result" where
  "collect [] = Inr []"
| "collect (r # rs) =
     (case r of
        Inl f \<Rightarrow> Inl f
      | Inr v \<Rightarrow> (case collect rs of Inl f \<Rightarrow> Inl f | Inr vs \<Rightarrow> Inr (v # vs)))"

text \<open>
  \<open>for i := byte(1); i <= n; i++ { shares[i] = make([]byte, len(secret)) }\<close>: a byte
  counter again, which does not end for \<open>n = 255\<close>.
\<close>

partial_function (option) alloc_shares :: "byte \<Rightarrow> nat \<Rightarrow> byte \<Rightarrow> shares \<Rightarrow> shares option" where
  "alloc_shares n len i sh =
     (if i \<le> n then alloc_shares n len (i + 1) (sh(i \<mapsto> replicate len 0)) else Some sh)"

text \<open>
  The placement of one result: \<open>shares[j][i+res.Index] = res.Shares[i][int(j)-1]\<close> for
  \<open>j\<close> from 1 while \<open>j <= n\<close> and \<open>i\<close> below \<open>res.N\<close>. A key that the map does not have
  reads as the nil slice, and indexing it panics.
\<close>

fun place_row :: "Result \<Rightarrow> byte \<Rightarrow> nat list \<Rightarrow> shares \<Rightarrow> shares result" where
  "place_row res j [] sh = Inr sh"
| "place_row res j (i # is) sh =
     (case sh j of
        None \<Rightarrow> Inl (Panic IndexOutOfRange)
      | Some v \<Rightarrow>
          (if length (Shares res) \<le> i \<or> j = 0 \<or> length (Shares res ! i) \<le> unat j - 1
              \<or> int i + Index res < 0 \<or> int (length v) \<le> int i + Index res
           then Inl (Panic IndexOutOfRange)
           else place_row res j is
                  (sh(j \<mapsto> v[nat (int i + Index res) := Shares res ! i ! (unat j - 1)]))))"

partial_function (option) place_loop :: "Result \<Rightarrow> byte \<Rightarrow> byte \<Rightarrow> shares \<Rightarrow> shares result option" where
  "place_loop res n j sh =
     (if j \<le> n then
        (case place_row res j [0..<nat (Len res)] sh of
           Inl f \<Rightarrow> Some (Inl f)
         | Inr sh' \<Rightarrow> place_loop res n (j + 1) sh')
      else Some (Inr sh))"

fun receive_loop :: "Result list \<Rightarrow> byte \<Rightarrow> shares \<Rightarrow> shares result option" where
  "receive_loop [] n sh = Some (Inr sh)"
| "receive_loop (res # rs) n sh =
     (case place_loop res n 1 sh of
        None \<Rightarrow> None
      | Some (Inl f) \<Rightarrow> Some (Inl f)
      | Some (Inr sh') \<Rightarrow> receive_loop rs n sh')"

text \<open>
  \<open>SplitParallel\<close>. Every channel \<open>send[c]\<close> is served by a worker running
  \<open>SplitParallelLoop\<close>, and all workers answer on the one channel \<open>ret\<close>. The order in
  which their answers arrive is not determined by the program: it is the parameter
  \<open>arrival\<close>, where \<open>arrival count\<close> lists the numbers of the \<open>count\<close> messages in the order
  in which their results are received.
\<close>

definition SplitParallel ::
    "byte \<Rightarrow> byte \<Rightarrow> byte list \<Rightarrow> nat \<Rightarrow> (nat \<Rightarrow> nat list) \<Rightarrow> int \<Rightarrow> reader \<Rightarrow> (shares result \<times> reader) option" where
  "SplitParallel n k secret nsend arrival cpus rnd =
     (if k \<le> 1 then Some (Inl (Error ErrInvalidThreshold), rnd)
      else if n < k then Some (Inl (Error ErrInvalidCount), rnd)
      else
        (case generatePolys (k - 1) secret rnd of
           None \<Rightarrow> None
         | Some (Inl f, rnd') \<Rightarrow> Some (Inl f, rnd')
         | Some (Inr p, rnd') \<Rightarrow>
             (case dispatch p secret n cpus nsend 0 0 [] of
                Inl f \<Rightarrow> Some (Inl f, rnd')
              | Inr sent \<Rightarrow>
                  (case collect (map SplitParallelLoop sent) of
                     Inl f \<Rightarrow> Some (Inl f, rnd')
                   | Inr results \<Rightarrow>
                       (case alloc_shares n (length secret) 1 Map.empty of
                          None \<Rightarrow> None
                        | Some sh \<Rightarrow>
                            (case receive_loop (map (\<lambda>c. results ! c) (arrival (length sent))) n sh of
                               None \<Rightarrow> None
                             | Some (Inl f) \<Rightarrow> Some (Inl f, rnd')
                             | Some (Inr sh') \<Rightarrow> Some (Inr sh', rnd')))))))"

subsection \<open>The split with one worker per share\<close>

text \<open>
  \<open>Compute\<close>: byte \<open>i\<close> of the share \<open>nIndex\<close> is the value at \<open>nIndex\<close> of the polynomial
  \<open>p[next:next+int(k)]\<close>, \<open>next = i * k\<close>; the slice expression panics beyond the end of
  \<open>p\<close>. \<open>lenSecret\<close> is \<open>len(secret)\<close> at every call and never negative.
\<close>

fun Compute_loop :: "byte \<Rightarrow> byte \<Rightarrow> byte list \<Rightarrow> nat list \<Rightarrow> byte list \<Rightarrow> byte list result" where
  "Compute_loop k nIndex p [] share = Inr share"
| "Compute_loop k nIndex p (i # is) share =
     (if length p < i * unat k + unat k then Inl (Panic SliceBounds)
      else Compute_loop k nIndex p is (share[i := eval (take (unat k) (drop (i * unat k) p)) nIndex]))"

definition Compute :: "nat \<Rightarrow> byte \<Rightarrow> byte \<Rightarrow> byte list \<Rightarrow> byte list result" where
  "Compute lenSecret k nIndex p = Compute_loop k nIndex p [0..<lenSecret] (replicate lenSecret 0)"

text \<open>
  \<open>SplitNewConcur\<close>. Of the slices \<open>sendChan\<close> and \<open>resultChan\<close> only the lengths
  \<open>nsend\<close> and \<open>nresult\<close> matter. Channel \<open>sendChan[c]\<close> is served by a worker running
  \<open>RunParallel\<close>, which answers every message \<open>Comp{lenSecret, k, x, p}\<close> with
  \<open>Compute(lenSecret, k, x, p)\<close> on \<open>resultChan[c]\<close>. A message is the tuple of its fields;
  \<open>sent\<close> lists the messages with the numbers of their channels. A receive on a channel
  on which no message was sent does not return.
\<close>

type_synonym Comp = "nat \<times> byte \<times> byte \<times> byte list"

partial_function (option) send_loop ::
    "byte \<Rightarrow> nat \<Rightarrow> nat \<Rightarrow> byte \<Rightarrow> byte list \<Rightarrow> byte \<Rightarrow> (nat \<times> Comp) list \<Rightarrow> (nat \<times> Comp) list result option" where
  "send_loop n nsend lenSecret k p x sent =
     (if x \<le> n then
        (if nsend \<le> unat (x - 1) then Some (Inl (Panic IndexOutOfRange))
         else send_loop n nsend lenSecret k p (x + 1) (sent @ [(unat (x - 1), (lenSecret, k, x, p))]))
      else Some (Inr sent))"

partial_function (option) recv_loop ::
    "byte \<Rightarrow> nat \<Rightarrow> (nat \<times> Comp) list \<Rightarrow> byte \<Rightarrow> shares \<Rightarrow> shares result option" where
  "recv_loop n nresult sent x sh =
     (if x \<le> n then
        (if nresult \<le> unat (x - 1) then Some (Inl (Panic IndexOutOfRange))
         else
           (case map_of sent (unat (x - 1)) of
              None \<Rightarrow> None
            | Some (lenSecret, k, x', p) \<Rightarrow>
                (case Compute lenSecret k x' p of
                   Inl f \<Rightarrow> Some (Inl f)
                 | Inr share \<Rightarrow> recv_loop n nresult sent (x + 1) (sh(x \<mapsto> share)))))
      else Some (Inr sh))"

definition SplitNewConcur ::
    "byte \<Rightarrow> byte \<Rightarrow> byte list \<Rightarrow> nat \<Rightarrow> nat \<Rightarrow> reader \<Rightarrow> (shares result \<times> reader) option" where
  "SplitNewConcur n k secret nsend nresult rnd =
     (if k \<le> 1 then Some (Inl (Error ErrInvalidThreshold), rnd)
      else if n < k then Some (Inl (Error ErrInvalidCount), rnd)
      else
        (case generateRand k secret rnd of
           (Inl f, rnd') \<Rightarrow> Some (Inl f, rnd')
         | (Inr p, rnd') \<Rightarrow>
             (case send_loop n nsend (length secret) k p 1 [] of
                None \<Rightarrow> None
              | Some (Inl f) \<Rightarrow> Some (Inl f, rnd')
              | Some (Inr sent) \<Rightarrow>
                  (case recv_loop n nresult sent 1 Map.empty of
                     None \<Rightarrow> None
                   | Some (Inl f) \<Rightarrow> Some (Inl f, rnd')
                   | Some (Inr sh) \<Rightarrow> Some (Inr sh, rnd')))))"

subsection \<open>The parallel combine\<close>

text \<open>
  \<open>type Data struct\<close>; its field \<open>Index\<close> is \<open>Offset\<close> here, the name \<open>Index\<close> being taken
  by \<open>Result\<close>.
\<close>

record Data =
  Secret :: "byte list"
  Offset :: int

text \<open>
  \<open>CombineConcur\<close>: row \<open>i\<close> of \<open>shares\<close> holds byte \<open>index + i\<close> of every share, in the
  order of \<open>indices\<close>; the points are \<open>pair{x: byte(indices[j]), y: shares[i][j]}\<close>.
\<close>

fun concur_points :: "int list \<Rightarrow> byte list \<Rightarrow> nat list \<Rightarrow> pair list result" where
  "concur_points indices row [] = Inr []"
| "concur_points indices row (j # js) =
     (if length indices \<le> j then Inl (Panic IndexOutOfRange)
      else
        (case concur_points indices row js of
           Inl f \<Rightarrow> Inl f
         | Inr ps \<Rightarrow> Inr (\<lparr>px = word_of_int (indices ! j), py = row ! j\<rparr> # ps)))"

fun concur_loop :: "byte list list \<Rightarrow> int list \<Rightarrow> nat list \<Rightarrow> byte list \<Rightarrow> byte list result" where
  "concur_loop shares indices [] secret = Inr secret"
| "concur_loop shares indices (i # is) secret =
     (case concur_points indices (shares ! i) [0..<length (shares ! i)] of
        Inl f \<Rightarrow> Inl f
      | Inr points \<Rightarrow>
          (case interpolate points 0 of
             Inl f \<Rightarrow> Inl f
           | Inr b \<Rightarrow> concur_loop shares indices is (secret[i := b])))"

definition CombineConcur :: "byte list list \<Rightarrow> int \<Rightarrow> int list \<Rightarrow> Data result" where
  "CombineConcur shares index indices =
     (case concur_loop shares indices [0..<length shares] (replicate (length shares) 0) of
        Inl f \<Rightarrow> Inl f
      | Inr secret \<Rightarrow> Inr \<lparr>Secret = secret, Offset = index\<rparr>)"

text \<open>
  The chunks of \<open>CombineParallel\<close>: \<open>share[j][k] = newShares[k][i+j]\<close>, which panics on a
  share that has no byte \<open>i + j\<close>. The step of the outer loop is
  \<open>cpus := runtime.NumCPU() + 10\<close>; the number of CPUs is the parameter \<open>numCPU\<close>.
\<close>

fun chunk_row :: "byte list list \<Rightarrow> nat \<Rightarrow> nat list \<Rightarrow> byte list \<Rightarrow> byte list result" where
  "chunk_row newShares pos [] row = Inr row"
| "chunk_row newShares pos (k # ks) row =
     (if length (newShares ! k) \<le> pos then Inl (Panic IndexOutOfRange)
      else chunk_row newShares pos ks (row[k := newShares ! k ! pos]))"

fun chunk_rows :: "byte list list \<Rightarrow> nat \<Rightarrow> nat list \<Rightarrow> byte list list \<Rightarrow> byte list list result" where
  "chunk_rows newShares i [] share = Inr share"
| "chunk_rows newShares i (j # js) share =
     (case chunk_row newShares (i + j) [0..<length newShares] (replicate (length newShares) 0) of
        Inl f \<Rightarrow> Inl f
      | Inr row \<Rightarrow> chunk_rows newShares i js (share[j := row]))"

function chunk_loop ::
    "byte list list \<Rightarrow> nat \<Rightarrow> nat \<Rightarrow> nat \<Rightarrow> (byte list list \<times> nat) list \<Rightarrow> (byte list list \<times> nat) list result" where
  "chunk_loop newShares len numCPU i spawned =
     (if i < len then
        (case chunk_rows newShares i
                [0..<(if i + (numCPU + 10) \<ge> len then len - i else numCPU + 10)]
                (replicate (if i + (numCPU + 10) \<ge> len then len - i else numCPU + 10) []) of
           Inl f \<Rightarrow> Inl f
         | Inr share \<Rightarrow> chunk_loop newShares len numCPU (i + (numCPU + 10)) (spawned @ [(share, i)]))
      else Inr spawned)"
  by pat_completeness auto
termination
  by (relation "measure (\<lambda>(newShares, len, numCPU, i, spawned). len - i)") auto

declare chunk_loop.simps [simp del]

text \<open>The collecting loop: \<open>secret[i+res.Index] = res.Secret[i]\<close>.\<close>

fun put_data :: "Data \<Rightarrow> nat list \<Rightarrow> byte list \<Rightarrow> byte list result" where
  "put_data res [] secret = Inr secret"
| "put_data res (i # is) secret =
     (if int i + Offset res < 0 \<or> int (length secret) \<le> int i + Offset res
      then Inl (Panic IndexOutOfRange)
      else put_data res is (secret[nat (int i + Offset res) := Secret res ! i]))"

fun collect_data :: "Data list \<Rightarrow> byte list \<Rightarrow> byte list result" where
  "collect_data [] secret = Inr secret"
| "collect_data (res # rs) secret =
     (case put_data res [0..<length (Secret res)] secret of
        Inl f \<Rightarrow> Inl f
      | Inr secret' \<Rightarrow> collect_data rs secret')"

text \<open>
  \<open>CombineParallel\<close>. The first \<open>range\<close> over the map (number 0) fills \<open>newShares\<close> and
  \<open>indices\<close>, the second (number 1) takes the length of whichever share comes first. Every
  chunk is handed to a goroutine running \<open>CombineConcur\<close>; the goroutines answer on one
  channel, in an order that the program does not determine: \<open>arrival count\<close> lists the
  numbers of the \<open>count\<close> chunks in the order in which their results are received.
\<close>

definition CombineParallel :: "nat \<Rightarrow> (nat \<Rightarrow> nat list) \<Rightarrow> (nat \<Rightarrow> byte list) \<Rightarrow> shares \<Rightarrow> byte list result" where
  "CombineParallel numCPU arrival ord sh =
     (let newShares = map snd (entries sh (ord 0));
          indices = map (\<lambda>(k, v). uint k) (entries sh (ord 0));
          secret = (case entries sh (ord 1) of
                      [] \<Rightarrow> replicate (length (entries sh (ord 0))) (0 :: byte)
                    | (k, v) # rest \<Rightarrow> replicate (length v) (0 :: byte))
      in case chunk_loop newShares (length secret) numCPU 0 [] of
           Inl f \<Rightarrow> Inl f
         | Inr spawned \<Rightarrow>
             (case collect (map (\<lambda>(share, i). CombineConcur share (int i) indices) spawned) of
                Inl f \<Rightarrow> Inl f
              | Inr results \<Rightarrow>
                  collect_data (map (\<lambda>c. results ! c) (arrival (length spawned))) secret))"

section \<open>The field laws of the modelled multiplication\<close>

subsection \<open>Multiplication is additive in both arguments\<close>

lemma xtime_0: "xtime 0 = 0" by (simp add: xtime_def)

lemma xtime_xor: "xtime (a XOR b) = xtime a XOR xtime b"
  by (simp add: xtime_def bit_xor_iff xor.assoc xor.commute xor.left_commute)

lemma mul_loop_0_left: "mul_loop n 0 b = 0"
  by (induction n arbitrary: b) (simp_all add: xtime_0)

lemma mul_loop_0_right: "mul_loop n a 0 = 0"
  by (induction n arbitrary: a) simp_all

lemma mul_loop_xor_left:
  "mul_loop n (a XOR a') b = mul_loop n a b XOR mul_loop n a' b"
  by (induction n arbitrary: a a' b) (simp_all add: xtime_xor xor.assoc xor.commute xor.left_commute)

lemma mul_loop_xor_right:
  "mul_loop n a (b XOR b') = mul_loop n a b XOR mul_loop n a b'"
  by (induction n arbitrary: a b b') (simp_all add: bit_xor_iff xor.assoc xor.commute xor.left_commute)

lemma mul_loop_xtime_left: "mul_loop n (xtime a) b = xtime (mul_loop n a b)"
  by (induction n arbitrary: a b) (simp_all add: xtime_0 xtime_xor)

lemma mul_loop_snoc:
  "mul_loop (Suc n) a b = mul_loop n a b XOR (if bit b n then (xtime ^^ n) a else 0)"
proof (induction n arbitrary: a b)
  case 0
  show ?case by simp
next
  case (Suc n)
  have "mul_loop (Suc (Suc n)) a b = (if bit b 0 then a else 0) XOR mul_loop (Suc n) (xtime a) (drop_bit 1 b)"
    by simp
  also have "mul_loop (Suc n) (xtime a) (drop_bit 1 b) =
      mul_loop n (xtime a) (drop_bit 1 b) XOR (if bit (drop_bit 1 b) n then (xtime ^^ n) (xtime a) else 0)"
    by (rule Suc.IH)
  finally show ?case
    by (simp add: bit_drop_bit_eq funpow_swap1 xor.assoc)
qed

lemma mul_loop_take_bit: "mul_loop n a (take_bit n b) = mul_loop n a b"
proof (induction n arbitrary: a b)
  case 0
  show ?case by simp
next
  case (Suc n)
  have "drop_bit 1 (take_bit (Suc n) b) = take_bit n (drop_bit 1 b)"
    by (simp add: drop_bit_take_bit)
  moreover have "bit (take_bit (Suc n) b) 0 = bit b 0"
    by (simp add: bit_take_bit_iff)
  ultimately show ?case using Suc.IH by simp
qed

subsection \<open>Units\<close>

lemma mul_loop_numeral:
  "mul_loop (numeral k) a b =
     (if bit b 0 then a else 0) XOR mul_loop (pred_numeral k) (xtime a) (drop_bit 1 b)"
  by (simp add: numeral_eq_Suc)

lemma mul_1_right: "mul a 1 = a"
  by (simp add: mul_def mul_loop_numeral mul_loop_0_right)

lemma mul_0_right: "mul a 0 = 0" by (simp add: mul_def mul_loop_0_right)
lemma mul_0_left: "mul 0 a = 0" by (simp add: mul_def mul_loop_0_left)

lemma xtime_push_bit: "k < 7 \<Longrightarrow> xtime (push_bit k 1) = push_bit (Suc k) 1"
  by (simp add: xtime_def bit_push_bit_iff push_bit_eq_mult bit_exp_iff)

lemma bit_mul_loop_basis:
  "n + k \<le> 8 \<Longrightarrow>
     bit (mul_loop n (push_bit k 1) b) m \<longleftrightarrow> k \<le> m \<and> m < k + n \<and> bit b (m - k)"
proof (induction n arbitrary: k b)
  case 0
  show ?case by simp
next
  case (Suc n)
  have head: "bit (if bit b 0 then push_bit k (1::byte) else 0) m \<longleftrightarrow> bit b 0 \<and> m = k"
    using Suc.prems by (auto simp: bit_push_bit_iff bit_1_iff bit_exp_iff)
  show ?case
  proof (cases "n = 0")
    case True
    with head show ?thesis by auto
  next
    case False
    with Suc.prems have k: "k < 7" by simp
    from Suc.prems have "n + Suc k \<le> 8" by simp
    from Suc.IH [OF this, of "drop_bit 1 b"]
    have tail: "bit (mul_loop n (push_bit (Suc k) 1) (drop_bit 1 b)) m
       \<longleftrightarrow> Suc k \<le> m \<and> m < Suc k + n \<and> bit b (Suc (m - Suc k))"
      by (simp add: bit_drop_bit_eq)
    have "mul_loop (Suc n) (push_bit k 1) b =
       (if bit b 0 then push_bit k 1 else 0) XOR mul_loop n (push_bit (Suc k) 1) (drop_bit 1 b)"
      using xtime_push_bit [OF k] by (simp del: push_bit_Suc)
    then have "bit (mul_loop (Suc n) (push_bit k 1) b) m \<longleftrightarrow>
       ((bit b 0 \<and> m = k) \<noteq> (Suc k \<le> m \<and> m < Suc k + n \<and> bit b (Suc (m - Suc k))))"
      using head tail by (simp only: bit_xor_iff)
    also have "\<dots> \<longleftrightarrow> k \<le> m \<and> m < k + Suc n \<and> bit b (m - k)"
    proof (cases "m = k")
      case True
      then show ?thesis by simp
    next
      case False
      then have "k \<le> m \<longleftrightarrow> Suc k \<le> m" by auto
      moreover have "Suc k \<le> m \<Longrightarrow> Suc (m - Suc k) = m - k" by simp
      ultimately show ?thesis using False by auto
    qed
    finally show ?thesis .
  qed
qed

lemma mul_1_left: "mul 1 b = b"
proof (rule bit_word_eqI)
  fix m assume "m < LENGTH(8)"
  then show "bit (mul 1 b) m \<longleftrightarrow> bit b m"
    using bit_mul_loop_basis [of 8 0 b m] by (simp add: mul_def)
qed

subsection \<open>Commutativity and associativity\<close>

text \<open>
  An additive map on bytes is determined by its values on \<open>1, x, \<dots>, x^7\<close>; both laws
  are equalities of additive maps that agree there.
\<close>

definition additive :: "(byte \<Rightarrow> byte) \<Rightarrow> bool" where
  "additive f \<longleftrightarrow> (\<forall>a b. f (a XOR b) = f a XOR f b)"

lemma additive_0: assumes "additive f" shows "f 0 = 0"
proof -
  from assms have "f (0 XOR 0) = f 0 XOR f 0" unfolding additive_def by blast
  then show ?thesis by simp
qed

lemma additive_mul_left: "additive (\<lambda>a. mul a b)"
  by (simp add: additive_def mul_def mul_loop_xor_left)

lemma additive_mul_right: "additive (mul a)"
  by (simp add: additive_def mul_def mul_loop_xor_right)

lemma additive_xtime: "additive xtime"
  by (simp add: additive_def xtime_xor)

lemma additive_comp: "additive f \<Longrightarrow> additive g \<Longrightarrow> additive (\<lambda>a. f (g a))"
  by (simp add: additive_def)

lemma additive_funpow: "additive f \<Longrightarrow> additive (f ^^ n)"
  by (induction n) (simp_all add: additive_def)

lemma additive_mul_loop:
  "additive f \<Longrightarrow> additive g \<Longrightarrow> (\<forall>i<n. f ((xtime ^^ i) c) = g ((xtime ^^ i) c)) \<Longrightarrow>
     f (mul_loop n c b) = g (mul_loop n c b)"
proof (induction n arbitrary: c b)
  case 0
  then show ?case by (simp add: additive_0)
next
  case (Suc n)
  have "\<forall>i<n. f ((xtime ^^ i) (xtime c)) = g ((xtime ^^ i) (xtime c))"
  proof (intro allI impI)
    fix i assume "i < n"
    then have "f ((xtime ^^ Suc i) c) = g ((xtime ^^ Suc i) c)" using Suc.prems(3) by blast
    then show "f ((xtime ^^ i) (xtime c)) = g ((xtime ^^ i) (xtime c))"
      by (simp add: funpow_swap1)
  qed
  from Suc.IH [OF Suc.prems(1,2) this]
  have tl: "f (mul_loop n (xtime c) (drop_bit 1 b)) = g (mul_loop n (xtime c) (drop_bit 1 b))" .
  from Suc.prems(3) have "f ((xtime ^^ 0) c) = g ((xtime ^^ 0) c)" by blast
  then have hd: "f (if bit b 0 then c else 0) = g (if bit b 0 then c else 0)"
    using Suc.prems(1,2) by (simp add: additive_0)
  have "f (mul_loop (Suc n) c b) = f (if bit b 0 then c else 0) XOR f (mul_loop n (xtime c) (drop_bit 1 b))"
    using Suc.prems(1) unfolding additive_def by (simp del: if_split split del: if_split)
  moreover have "g (mul_loop (Suc n) c b) = g (if bit b 0 then c else 0) XOR g (mul_loop n (xtime c) (drop_bit 1 b))"
    using Suc.prems(2) unfolding additive_def by (simp split del: if_split)
  ultimately show ?case using hd tl by simp
qed

lemma additive_ext:
  assumes "additive f" "additive g" "\<forall>i<8. f ((xtime ^^ i) 1) = g ((xtime ^^ i) 1)"
  shows "f b = g b"
  using additive_mul_loop [OF assms, of b] by (simp add: mul_1_left [unfolded mul_def])

lemma mul_xtime_left: "mul (xtime a) b = xtime (mul a b)"
  by (simp add: mul_def mul_loop_xtime_left)

lemma mul_funpow_left: "mul ((xtime ^^ i) a) b = (xtime ^^ i) (mul a b)"
  by (induction i) (simp_all add: mul_xtime_left)

lemma funpow_numeral: "(f ^^ numeral k) x = f ((f ^^ pred_numeral k) x)"
  by (simp add: numeral_eq_Suc)

lemma xtime8_1: "(xtime ^^ 8) 1 = 0x1b"
  by (simp add: funpow_numeral xtime_def)

lemma xtime8: "(xtime ^^ 8) a = mul a 0x1b"
proof (rule additive_ext [of "xtime ^^ 8" "\<lambda>a. mul a 0x1b"])
  show "additive (xtime ^^ 8)" by (rule additive_funpow [OF additive_xtime])
  show "additive (\<lambda>a. mul a 0x1b)" by (rule additive_mul_left)
  show "\<forall>i<8. (xtime ^^ 8) ((xtime ^^ i) 1) = mul ((xtime ^^ i) 1) 0x1b"
  proof (intro allI impI)
    fix i :: nat
    have "(xtime ^^ 8) ((xtime ^^ i) 1) = (xtime ^^ i) ((xtime ^^ 8) 1)"
      by (simp only: funpow_add [symmetric, unfolded comp_def, THEN fun_cong] add.commute)
    then show "(xtime ^^ 8) ((xtime ^^ i) 1) = mul ((xtime ^^ i) 1) 0x1b"
      by (simp add: mul_funpow_left mul_1_left xtime8_1)
  qed
qed

lemma drop_push_byte: "k \<le> 8 \<Longrightarrow> drop_bit k (push_bit k (b::byte)) = take_bit (8 - k) b"
  by (rule bit_word_eqI) (auto simp: bit_drop_bit_eq bit_push_bit_iff bit_take_bit_iff)

lemma mul_double_right:
  "mul a (b * 2) = xtime (mul a b) XOR (if bit b 7 then (xtime ^^ 8) a else 0)"
proof -
  have b2: "b * 2 = push_bit 1 b" by simp
  have "drop_bit 1 (push_bit 1 b) = take_bit 7 b"
    using drop_push_byte [of 1 b] by simp
  moreover have "\<not> bit (push_bit 1 b) 0" by (simp add: bit_push_bit_iff del: push_bit_Suc)
  ultimately have "mul_loop (Suc 7) a (push_bit 1 b) = mul_loop 7 (xtime a) (take_bit 7 b)"
    by (simp only: mul_loop.simps if_False xor.left_neutral)
  also have "\<dots> = xtime (mul_loop 7 a b)"
    by (simp only: mul_loop_take_bit mul_loop_xtime_left)
  finally have l: "mul a (b * 2) = xtime (mul_loop 7 a b)"
    unfolding b2 by (simp add: mul_def)
  have "mul a b = mul_loop (Suc 7) a b" by (simp add: mul_def)
  also have "\<dots> = mul_loop 7 a b XOR (if bit b 7 then (xtime ^^ 7) a else 0)"
    by (rule mul_loop_snoc)
  finally have "xtime (mul a b) = xtime (mul_loop 7 a b) XOR (if bit b 7 then xtime ((xtime ^^ 7) a) else 0)"
    by (simp add: xtime_xor xtime_0)
  moreover have "xtime ((xtime ^^ 7) a) = (xtime ^^ 8) a"
    by (simp add: funpow_numeral)
  ultimately show ?thesis using l by (simp add: xor.assoc)
qed

lemma mul_xtime_right: "mul a (xtime b) = xtime (mul a b)"
proof (cases "bit b 7")
  case True
  then have "mul a (xtime b) = mul a (b * 2) XOR mul a 0x1b"
    by (simp add: xtime_def mul_def mul_loop_xor_right)
  with True show ?thesis by (simp add: mul_double_right xtime8 xor.assoc)
next
  case False
  then show ?thesis by (simp add: xtime_def mul_double_right)
qed

lemma mul_funpow_right: "mul a ((xtime ^^ i) b) = (xtime ^^ i) (mul a b)"
  by (induction i) (simp_all add: mul_xtime_right)

lemma mul_commute: "mul a b = mul b a"
proof (rule additive_ext [of "\<lambda>a. mul a b" "mul b"])
  show "additive (\<lambda>a. mul a b)" by (rule additive_mul_left)
  show "additive (mul b)" by (rule additive_mul_right)
  show "\<forall>i<8. mul ((xtime ^^ i) 1) b = mul b ((xtime ^^ i) 1)"
    by (simp add: mul_funpow_left mul_funpow_right mul_1_left mul_1_right)
qed

lemma mul_assoc: "mul (mul a b) c = mul a (mul b c)"
proof (rule additive_ext [of "\<lambda>b. mul (mul a b) c" "\<lambda>b. mul a (mul b c)"])
  show "additive (\<lambda>b. mul (mul a b) c)"
    by (rule additive_comp [OF additive_mul_left additive_mul_right])
  show "additive (\<lambda>b. mul a (mul b c))"
    by (rule additive_comp [OF additive_mul_right additive_mul_left])
  show "\<forall>i<8. mul (mul a ((xtime ^^ i) 1)) c = mul a (mul ((xtime ^^ i) 1) c)"
    by (simp add: mul_funpow_left mul_funpow_right mul_1_left mul_1_right)
qed

lemma mul_left_commute: "mul a (mul b c) = mul b (mul a c)"
  by (metis mul_assoc mul_commute)

lemma mul_xor_right: "mul a (b XOR c) = mul a b XOR mul a c"
  by (simp add: mul_def mul_loop_xor_right)

lemma mul_xor_left: "mul (a XOR b) c = mul a c XOR mul b c"
  by (simp add: mul_def mul_loop_xor_left)

subsection \<open>Inverses\<close>

text \<open>
  The element 3 generates the multiplicative group: its powers \<open>3^1 \<dots> 3^254\<close> differ
  from 1 and \<open>3^255 = 1\<close>. Hence every nonzero byte is a power of 3 and \<open>b^254\<close> is
  its inverse.
\<close>

lemma gpow_add: "gpow a (m + n) = mul (gpow a m) (gpow a n)"
  by (induction m) (simp_all add: mul_1_left mul_assoc)

lemma gpow_one: "gpow 1 n = 1"
  by (induction n) (simp_all add: mul_1_left)

lemma gpow_mult: "gpow (gpow a m) n = gpow a (m * n)"
  by (induction n) (simp_all add: gpow_add)

lemma mul_3: "mul 3 a = xtime a XOR a"
proof -
  have "mul a 3 = xtime a XOR a"
    by (simp add: mul_def mul_loop_numeral mul_loop_0_right xor.commute)
  then show ?thesis by (simp add: mul_commute)
qed

fun ord_chk :: "nat \<Rightarrow> byte \<Rightarrow> bool" where
  "ord_chk 0 a = (a = 1)"
| "ord_chk (Suc n) a = (a \<noteq> 1 \<and> ord_chk n (xtime a XOR a))"

lemma ord_chk_numeral:
  "ord_chk (numeral k) a = (a \<noteq> 1 \<and> ord_chk (pred_numeral k) (xtime a XOR a))"
  by (simp add: numeral_eq_Suc)

lemma ord_chk_iff:
  "ord_chk n a \<longleftrightarrow> (\<forall>i<n. mul (gpow 3 i) a \<noteq> 1) \<and> mul (gpow 3 n) a = 1"
proof (induction n arbitrary: a)
  case 0
  show ?case by (simp add: mul_1_left)
next
  case (Suc n)
  have step: "mul (gpow 3 i) (xtime a XOR a) = mul (mul 3 (gpow 3 i)) a" for i
  proof -
    have "mul (gpow 3 i) (mul 3 a) = mul (mul (gpow 3 i) 3) a" by (simp only: mul_assoc)
    then show ?thesis by (simp only: mul_3 mul_commute [of "gpow 3 i" 3])
  qed
  show ?case
    by (simp add: Suc.IH step All_less_Suc2 mul_1_left)
qed

lemma ord_3: "ord_chk 254 3"
  by (simp add: ord_chk_numeral xtime_def)


lemma gpow3_order: "gpow 3 255 = 1" "0 < i \<Longrightarrow> i < 255 \<Longrightarrow> gpow 3 i \<noteq> 1"
proof -
  have *: "(\<forall>i<254. mul (gpow 3 i) 3 \<noteq> 1) \<and> mul (gpow 3 254) 3 = 1"
    using ord_3 unfolding ord_chk_iff .
  have sh: "mul (gpow 3 j) 3 = gpow 3 (Suc j)" for j by (simp add: mul_commute)
  from * have "gpow 3 (Suc 254) = 1" unfolding sh by blast
  then show "gpow 3 255 = 1" by simp
  assume "0 < i" "i < 255"
  then obtain j where "i = Suc j" "j < 254" by (cases i) auto
  with * show "gpow 3 i \<noteq> 1" unfolding sh by blast
qed

lemma gpow3_inj: assumes "i < 255" "j < 255" "gpow 3 i = gpow 3 j" shows "i = j"
proof -
  have aux: False if "i < j" "j < 255" "gpow 3 i = gpow 3 j" for i j
  proof -
    have "i + (255 - i) = 255" "j + (255 - i) = 255 + (j - i)" using that by simp_all
    then have "mul (gpow 3 i) (gpow 3 (255 - i)) = 1" "mul (gpow 3 j) (gpow 3 (255 - i)) = gpow 3 (255 + (j - i))"
      using gpow3_order(1) by (simp_all only: gpow_add [symmetric])
    then have "gpow 3 (255 + (j - i)) = 1" using that by simp
    then have "gpow 3 (j - i) = 1" by (simp add: gpow_add gpow3_order(1) mul_1_left)
    moreover have "0 < j - i" "j - i < 255" using that by simp_all
    ultimately show False using gpow3_order(2) by blast
  qed
  show ?thesis
  proof (rule ccontr)
    assume "i \<noteq> j"
    then consider "i < j" | "j < i" by linarith
    then show False using aux [of i j] aux [of j i] assms by cases simp_all
  qed
qed

lemma gpow3_nonzero: assumes "i < 255" shows "gpow 3 i \<noteq> 0"
proof
  assume z: "gpow 3 i = 0"
  have "i + (255 - i) = 255" using assms by simp
  then have "mul (gpow 3 i) (gpow 3 (255 - i)) = 1"
    using gpow3_order(1) by (simp only: gpow_add [symmetric])
  then show False unfolding z by (simp add: mul_0_left)
qed

lemma gpow3_surj: assumes "b \<noteq> 0" shows "\<exists>i<255. b = gpow 3 i"
proof -
  let ?S = "gpow 3 ` {..<255}"
  have "inj_on (gpow 3) {..<255}" by (auto intro!: inj_onI gpow3_inj)
  then have "card ?S = 255" by (simp add: card_image)
  moreover have "?S \<subseteq> UNIV - {0}" using gpow3_nonzero by auto
  moreover have "card (UNIV - {0 :: byte}) = 255" by (simp add: card_Diff_singleton card_word)
  ultimately have "?S = UNIV - {0}" by (intro card_subset_eq) simp_all
  with assms have "b \<in> ?S" by simp
  then show ?thesis by auto
qed

lemma mul_inverse: assumes "b \<noteq> 0" shows "mul b (inverse_gf b) = 1"
proof -
  from gpow3_surj [OF assms] obtain i where "b = gpow 3 i" by blast
  have "mul b (inverse_gf b) = gpow b (Suc 254)" by (simp only: inverse_gf_def gpow.simps)
  also have "\<dots> = gpow b 255" by simp
  also have "\<dots> = gpow 3 (i * 255)" unfolding \<open>b = gpow 3 i\<close> by (simp only: gpow_mult)
  also have "\<dots> = gpow 3 (255 * i)" by (simp only: mult.commute)
  also have "\<dots> = gpow (gpow 3 255) i" by (simp only: gpow_mult)
  also have "\<dots> = 1" by (simp add: gpow3_order(1) gpow_one)
  finally show ?thesis .
qed

text \<open>
  The same inverse by squaring and multiplying, \<open>254 = 2 * (2 * (\<dots> (2 + 1) \<dots>) + 1)\<close>;
  it is the equation concrete inverses are computed with.
\<close>

definition sq :: "byte \<Rightarrow> byte" where
  "sq a = mul a a"

lemma sq_gpow: "sq (gpow b n) = gpow b (2 * n)"
  by (simp add: sq_def gpow_add [symmetric] mult_2)

lemma mul_gpow: "mul b (gpow b n) = gpow b (Suc n)"
  by simp

lemma inverse_gf_chain [code]:
  "inverse_gf b =
     sq (mul b (sq (mul b (sq (mul b (sq (mul b (sq (mul b (sq (mul b (sq b))))))))))))"
proof -
  have "sq b = gpow b 2" using sq_gpow [of b 1] by (simp add: mul_1_right)
  then show ?thesis
    by (simp only: mul_gpow sq_gpow inverse_gf_def) simp
qed

subsection \<open>The bytes as a field\<close>

typedef gf256 = "UNIV :: byte set"
  by simp

setup_lifting type_definition_gf256

instantiation gf256 :: field
begin

lift_definition zero_gf256 :: gf256 is "0 :: byte" .
lift_definition one_gf256 :: gf256 is "1 :: byte" .
lift_definition plus_gf256 :: "gf256 \<Rightarrow> gf256 \<Rightarrow> gf256" is "\<lambda>a b :: byte. a XOR b" .
lift_definition minus_gf256 :: "gf256 \<Rightarrow> gf256 \<Rightarrow> gf256" is "\<lambda>a b :: byte. a XOR b" .
lift_definition uminus_gf256 :: "gf256 \<Rightarrow> gf256" is "\<lambda>a :: byte. a" .
lift_definition times_gf256 :: "gf256 \<Rightarrow> gf256 \<Rightarrow> gf256" is mul .
lift_definition inverse_gf256 :: "gf256 \<Rightarrow> gf256" is inverse_gf .
lift_definition divide_gf256 :: "gf256 \<Rightarrow> gf256 \<Rightarrow> gf256" is "\<lambda>a b. mul a (inverse_gf b)" .

instance
proof
  fix a b c :: gf256
  show "a + b + c = a + (b + c)" by transfer (simp add: xor.assoc)
  show "a + b = b + a" by transfer (simp add: xor.commute)
  show "0 + a = a" by transfer simp
  show "- a + a = 0" by transfer simp
  show "a - b = a + - b" by transfer simp
  show "a * b * c = a * (b * c)" by transfer (rule mul_assoc)
  show "a * b = b * a" by transfer (rule mul_commute)
  show "1 * a = a" by transfer (rule mul_1_left)
  show "(a + b) * c = a * c + b * c" by transfer (rule mul_xor_left)
  show "(0 :: gf256) \<noteq> 1" by transfer simp
  show "a \<noteq> 0 \<Longrightarrow> inverse a * a = 1"
    by transfer (simp add: mul_commute mul_inverse)
  show "a div b = a * inverse b" by transfer simp
  show "inverse (0 :: gf256) = 0"
    by transfer (simp add: inverse_gf_def numeral_eq_Suc mul_0_left)
qed

end

section \<open>Lagrange interpolation at zero\<close>

text \<open>
  Over any field: the Lagrange sum at 0 of a polynomial with at most \<open>card S\<close>
  coefficients, taken over the points \<open>S\<close>, is the constant term.
\<close>

fun horner :: "'a::field list \<Rightarrow> 'a \<Rightarrow> 'a" where
  "horner [] x = 0"
| "horner (c # cs) x = c + x * horner cs x"










section \<open>Evaluation of polynomials\<close>

lemma eval_loop_fold:
  "1 \<le> i \<Longrightarrow> eval_loop p x i r = fold (\<lambda>c r. mul r x XOR c) (drop (i - 1) (rev p)) r"
proof (induction p x i r rule: eval_loop.induct)
  case (1 p x i r)
  show ?case
  proof (cases "i \<le> length p")
    case True
    with "1.prems" have lt: "i - 1 < length (rev p)" by simp
    have nth: "rev p ! (i - 1) = p ! (length p - i)"
      using True "1.prems" by (simp add: rev_nth Suc_diff_le)
    have "drop (i - 1) (rev p) = rev p ! (i - 1) # drop i (rev p)"
      using Cons_nth_drop_Suc [OF lt] "1.prems" by simp
    moreover have "eval_loop p x (i + 1) (mul r x XOR p ! (length p - i))
        = fold (\<lambda>c r. mul r x XOR c) (drop i (rev p)) (mul r x XOR p ! (length p - i))"
      using "1.IH" [OF True] by simp
    ultimately show ?thesis using True nth by (subst eval_loop.simps) simp
  next
    case False
    then show ?thesis by (subst eval_loop.simps) simp
  qed
qed

lemma eval_foldr: "eval p x = foldr (\<lambda>c r. mul r x XOR c) p 0"
  by (simp add: eval_def eval_loop_fold foldr_conv_fold)

lemma eval_Nil: "eval [] x = 0" by (simp add: eval_foldr)
lemma eval_Cons: "eval (c # cs) x = mul (eval cs x) x XOR c" by (simp add: eval_foldr)

lemma xor_sum_Nil: "xor_sum [] = 0" by (simp add: xor_sum_def)
lemma xor_sum_Cons: "xor_sum (y # ys) = y XOR xor_sum ys" by (simp add: xor_sum_def)

lemma mul_xor_sum: "mul (xor_sum ys) x = xor_sum (map (\<lambda>y. mul y x) ys)"
  by (induction ys) (simp_all add: xor_sum_Nil xor_sum_Cons mul_0_left mul_xor_left)

lemma eval_sum: "eval p x = xor_sum (map (\<lambda>i. mul (p ! i) (gpow x i)) [0..<length p])"
proof (induction p)
  case Nil
  show ?case by (simp add: eval_Nil xor_sum_Nil)
next
  case (Cons c cs)
  have sh: "mul (mul (cs ! i) (gpow x i)) x = mul (cs ! i) (gpow x (Suc i))" for i
    by (simp add: mul_left_commute mul_commute [of _ x])
  have "[0..<length (c # cs)] = 0 # map Suc [0..<length cs]"
    by (simp add: upt_conv_Cons map_Suc_upt del: upt_Suc)
  then have "xor_sum (map (\<lambda>i. mul ((c # cs) ! i) (gpow x i)) [0..<length (c # cs)])
      = c XOR xor_sum (map (\<lambda>i. mul (cs ! i) (gpow x (Suc i))) [0..<length cs])"
    by (simp add: xor_sum_Cons mul_1_right comp_def del: upt_Suc gpow.simps(2)) 
  also have "\<dots> = mul (eval cs x) x XOR c"
    by (simp add: Cons.IH mul_xor_sum comp_def sh xor.commute del: gpow.simps(2))
  finally show ?case by (simp add: eval_Cons)
qed

lemma eval_count_aux: "i \<le> length p + 1 \<Longrightarrow> eval_count p i n = n + (length p + 1 - i)"
proof (induction p i n rule: eval_count.induct)
  case (1 p i n)
  show ?case
  proof (cases "i \<le> length p")
    case True
    with "1.IH" show ?thesis by (subst eval_count.simps) simp
  next
    case False
    with "1.prems" show ?thesis by (subst eval_count.simps) simp
  qed
qed

text \<open>
  C7. \<open>eval\<close> is Horner's scheme: it runs through the coefficients from the highest
  degree down to the constant term, each step computing \<open>mul(result, x) XOR coefficient\<close>;
  its value is the field sum of \<open>mul(p[i], x^i)\<close>; and it calls \<open>mul\<close> once per
  coefficient, \<open>degree + 1\<close> times in all.
\<close>

theorem eval_horner:
  "eval p x = fold (\<lambda>c result. mul result x XOR c) (rev p) 0 \<and>
   eval p x = xor_sum (map (\<lambda>i. mul (p ! i) (gpow x i)) [0..<length p]) \<and>
   eval_count p 1 0 = length p"
proof (intro conjI)
  show "eval p x = fold (\<lambda>c result. mul result x XOR c) (rev p) 0"
    by (simp add: eval_foldr foldr_conv_fold)
  show "eval p x = xor_sum (map (\<lambda>i. mul (p ! i) (gpow x i)) [0..<length p])"
    by (rule eval_sum)
  show "eval_count p 1 0 = length p"
    using eval_count_aux [of 1 p 0] by simp
qed

section \<open>The shape of the generated polynomials\<close>

lemma ReadFull_Inr_length: "ReadFull n rnd = (Inr bs, rnd') \<Longrightarrow> length bs = n"
  by (induction n rnd arbitrary: bs rnd' rule: ReadFull.induct)
     (auto split: prod.splits sum.splits)

lemma leading_loop_nonzero: "leading_loop rnd = (Inr b, rnd') \<Longrightarrow> b \<noteq> 0"
proof (induction rnd rule: leading_loop.induct)
  case (1 rnd)
  obtain r rnd1 where rf: "ReadFull 1 rnd = (r, rnd1)" by (cases "ReadFull 1 rnd")
  show ?case
  proof (cases r)
    case (Inl e)
    with rf "1.prems" show ?thesis by (subst (asm) leading_loop.simps) simp
  next
    case (Inr buf)
    show ?thesis
    proof (cases "buf ! 0 \<noteq> 0")
      case True
      with rf Inr "1.prems" show ?thesis by (subst (asm) leading_loop.simps) auto
    next
      case False
      with rf Inr "1.prems" have "leading_loop rnd1 = (Inr b, rnd')"
        by (subst (asm) leading_loop.simps) simp
      with "1.IH" [OF rf [symmetric] Inr False] show ?thesis .
    qed
  qed
qed

lemma fold_update_length:
  "length (fold (\<lambda>i r. r[i := g i]) is r) = length r"
  by (induction "is" arbitrary: r) simp_all

lemma fold_update_outside:
  "j \<notin> set is \<Longrightarrow> fold (\<lambda>i r. r[i := g i]) is r ! j = r ! j"
  by (induction "is" arbitrary: r) auto

lemma generate_shape_all:
  assumes "generate degree x rnd = (Inr p, rnd')"
  shows "length p = unat degree + 1 \<and> p ! unat degree \<noteq> 0 \<and> (1 \<le> degree \<longrightarrow> p ! 0 = x)"
proof -
  from assms have ne: "unat (degree + 1) \<noteq> 0"
    by (auto simp: generate_def Let_def split: if_splits)
  then have "degree + 1 \<noteq> 0" by (simp add: unat_eq_0)
  then have len: "unat (degree + 1) = unat degree + 1"
    by (metis add.commute unatSuc Suc_eq_plus1)
  from assms ne obtain buf rnd1 b where
    ll: "leading_loop rnd1 = (Inr b, rnd')" and
    p: "p = (fold (\<lambda>i r. r[i := buf ! (i - 1)]) [1..<unat degree] ((replicate (unat (degree + 1)) 0)[0 := x]))[unat degree := b]"
    by (auto simp: generate_def Let_def split: if_splits prod.splits sum.splits)
  have b: "b \<noteq> 0" using ll by (rule leading_loop_nonzero)
  have "length p = unat degree + 1" by (simp add: p fold_update_length len)
  moreover have "p ! unat degree = b" by (simp add: p fold_update_length len)
  moreover have "p ! 0 = x" if "1 \<le> degree"
  proof -
    from that have "1 \<le> unat degree" by (simp add: word_le_nat_alt)
    then show ?thesis by (simp add: p fold_update_outside fold_update_length len)
  qed
  ultimately show ?thesis using b by simp
qed

lemma generate_shape:
  assumes "1 \<le> degree" "generate degree x rnd = (Inr p, rnd')"
  shows "length p = unat degree + 1 \<and> p ! 0 = x \<and> p ! unat degree \<noteq> 0"
  using generate_shape_all [OF assms(2)] assms(1) by simp

lemma redraw_loop_shape:
  "redraw_loop result nd rnd = (Inr r, rnd') \<Longrightarrow>
     length r = length result \<and> nd < length r \<and> r ! nd \<noteq> 0 \<and> (\<forall>i. i \<noteq> nd \<longrightarrow> r ! i = result ! i)"
proof (induction result nd rnd rule: redraw_loop.induct)
  case (1 result nd rnd)
  show ?case
  proof (cases "length result \<le> nd")
    case True
    with "1.prems" show ?thesis by (subst (asm) redraw_loop.simps) simp
  next
    case inb: False
    show ?thesis
    proof (cases "result ! nd \<noteq> 0")
      case True
      with inb "1.prems" show ?thesis by (subst (asm) redraw_loop.simps) auto
    next
      case z: False
      obtain x rnd1 where rf: "ReadFull 1 rnd = (x, rnd1)" by (cases "ReadFull 1 rnd")
      show ?thesis
      proof (cases x)
        case (Inl e)
        with inb z rf "1.prems" show ?thesis by (subst (asm) redraw_loop.simps) simp
      next
        case (Inr buf)
        with inb z rf "1.prems" have "redraw_loop (result[nd := buf ! 0]) nd rnd1 = (Inr r, rnd')"
          by (subst (asm) redraw_loop.simps) simp
        from "1.IH" [OF inb z rf [symmetric] Inr this] show ?thesis by auto
      qed
    qed
  qed
qed

lemma generateRand_loop_shape_all:
  "generateRand_loop k bs start result rnd = (Inr r, rnd') \<Longrightarrow> 1 \<le> unat k \<Longrightarrow>
     length r = length result \<and> (\<forall>i. i < start \<longrightarrow> r ! i = result ! i) \<and>
     (\<forall>j<length bs. r ! (start + j * unat k + unat k - 1) \<noteq> 0 \<and>
        (2 \<le> unat k \<longrightarrow> r ! (start + j * unat k) = bs ! j))"
proof (induction bs arbitrary: start result rnd)
  case Nil
  then show ?case by simp
next
  case (Cons b bs)
  from Cons.prems(2) have k1: "unat (k - 1) = unat k - 1"
    by (simp add: unat_sub_if')
  from Cons.prems(1) have inb: "start < length result" by (auto split: if_splits)
  with Cons.prems(1) obtain r1 rnd1 where
    rd: "redraw_loop (result[start := b]) (start + unat (k - 1)) rnd = (Inr r1, rnd1)" and
    rec: "generateRand_loop k bs (start + unat k) r1 rnd1 = (Inr r, rnd')"
    by (auto split: if_splits prod.splits sum.splits)
  from redraw_loop_shape [OF rd] have r1:
    "length r1 = length result" "r1 ! (start + unat (k - 1)) \<noteq> 0"
    "\<And>i. i \<noteq> start + unat (k - 1) \<Longrightarrow> r1 ! i = (result[start := b]) ! i"
    by auto
  from Cons.IH [OF rec Cons.prems(2)] have r:
    "length r = length r1" "\<And>i. i < start + unat k \<Longrightarrow> r ! i = r1 ! i"
    "\<And>j. j < length bs \<Longrightarrow> r ! (start + unat k + j * unat k + unat k - 1) \<noteq> 0 \<and>
        (2 \<le> unat k \<longrightarrow> r ! (start + unat k + j * unat k) = bs ! j)"
    by auto
  have a: "length r = length result" using r(1) r1(1) by simp
  have b: "r ! i = result ! i" if "i < start" for i
  proof -
    from that have "r ! i = r1 ! i" by (intro r(2)) simp
    also have "\<dots> = (result[start := b]) ! i" using that by (intro r1(3)) simp
    finally show ?thesis using that by simp
  qed
  have c0: "r ! start = b" if "2 \<le> unat k"
  proof -
    have "r ! start = r1 ! start" using that by (intro r(2)) simp
    also have "\<dots> = (result[start := b]) ! start" using that k1 by (intro r1(3)) simp
    finally show ?thesis using inb by simp
  qed
  have c1: "r ! (start + unat k - 1) \<noteq> 0"
  proof -
    have "r ! (start + unat (k - 1)) = r1 ! (start + unat (k - 1))"
      using Cons.prems(2) k1 by (intro r(2)) simp
    with r1(2) show ?thesis using k1 Cons.prems(2) by simp
  qed
  have c: "r ! (start + j * unat k + unat k - 1) \<noteq> 0 \<and>
      (2 \<le> unat k \<longrightarrow> r ! (start + j * unat k) = (b # bs) ! j)"
    if "j < length (b # bs)" for j
  proof (cases j)
    case 0
    with c0 c1 show ?thesis by simp
  next
    case (Suc j')
    with that have "j' < length bs" by simp
    from r(3) [OF this] Suc show ?thesis by (simp add: add.assoc add.commute add.left_commute)
  qed
  from a b c show ?case by blast
qed

lemma generateRand_shape_all:
  assumes "generateRand k secret rnd = (Inr r, rnd')"
  shows "length r = unat k * length secret \<and>
     (\<forall>i<length secret. r ! (i * unat k + unat k - 1) \<noteq> 0 \<and>
        (2 \<le> k \<longrightarrow> r ! (i * unat k) = secret ! i))"
proof -
  from assms obtain buf rnd1 where
    rf: "ReadFull (unat k * length secret) rnd = (Inr buf, rnd1)" and
    lp: "generateRand_loop k secret 0 buf rnd1 = (Inr r, rnd')"
    by (auto simp: generateRand_def split: prod.splits sum.splits)
  note len = ReadFull_Inr_length [OF rf]
  show ?thesis
  proof (cases "secret = []")
    case True
    with lp len show ?thesis by simp
  next
    case False
    then obtain b bs where secret: "secret = b # bs" by (cases secret) auto
    have k: "1 \<le> unat k"
    proof (rule ccontr)
      assume "\<not> 1 \<le> unat k"
      then have "length buf = 0" using len by simp
      with lp secret show False by simp
    qed
    from generateRand_loop_shape_all [OF lp k] len
    show ?thesis by (simp add: word_le_nat_alt)
  qed
qed

lemma ReadFull_pos:
  "0 < n \<Longrightarrow> ReadFull n [] = (Inl EOF, [])"
  "0 < n \<Longrightarrow> ReadFull n (Fail e # rnd) = (Inl e, rnd)"
  "0 < n \<Longrightarrow> ReadFull n (Byte b # rnd) =
     (case ReadFull (n - 1) rnd of
        (Inr bs, rnd') \<Rightarrow> (Inr (b # bs), rnd')
      | (Inl e, rnd') \<Rightarrow> (Inl (if e = EOF then ErrUnexpectedEOF else e), rnd'))"
  by (cases n; simp)+

lemma ReadFull_replicate:
  "ReadFull n (replicate n (Byte b) @ rest) = (Inr (replicate n b), rest)"
  by (induction n) simp_all

lemma generate_example: "generate 2 9 [Byte 4, Byte 0, Byte 5] = (Inr [9, 4, 5], [])"
  by code_simp

lemma generateRand_example:
  "generateRand 2 [9, 8] [Byte 1, Byte 0, Byte 3, Byte 4, Byte 6] = (Inr [9, 6, 8, 4], [])"
  by code_simp

text \<open>
  C8. Every polynomial that \<open>generate\<close> produces has \<open>degree + 1\<close> coefficients and a
  nonzero coefficient at index \<open>degree\<close>, and, for the degrees \<open>k - 1 \<ge> 1\<close> of a threshold
  \<open>k > 1\<close>, the constant term at index 0. Every result of \<open>generateRand\<close> has \<open>k\<close>
  coefficients per byte of the secret, the last one of every row (index \<open>i * k + k - 1\<close>)
  nonzero, and, for \<open>k > 1\<close>, the first one (index \<open>i * k\<close>) equal to \<open>secret[i]\<close>.
\<close>

theorem generators_shape:
  "(generate degree x rnd = (Inr p, rnd') \<longrightarrow>
      length p = unat degree + 1 \<and> p ! unat degree \<noteq> 0 \<and> (1 \<le> degree \<longrightarrow> p ! 0 = x)) \<and>
   (generateRand k secret rnd2 = (Inr r, rnd2') \<longrightarrow>
      length r = unat k * length secret \<and>
      (\<forall>i<length secret. r ! (i * unat k + unat k - 1) \<noteq> 0 \<and>
         (2 \<le> k \<longrightarrow> r ! (i * unat k) = secret ! i)))"
  using generate_shape_all generateRand_shape_all by blast

theorem generators_shape_witness:
  "generate 2 9 [Byte 4, Byte 0, Byte 5] = (Inr [9, 4, 5], []) \<and>
   length [9, 4, 5 :: byte] = unat (2 :: byte) + 1 \<and> [9, 4, 5 :: byte] ! unat (2 :: byte) \<noteq> 0 \<and>
   1 \<le> (2 :: byte) \<and> [9, 4, 5 :: byte] ! 0 = 9 \<and>
   generateRand 2 [9, 8] [Byte 1, Byte 0, Byte 3, Byte 4, Byte 6] = (Inr [9, 6, 8, 4], []) \<and>
   length [9, 6, 8, 4 :: byte] = unat (2 :: byte) * length [9, 8 :: byte] \<and>
   [9, 6, 8, 4 :: byte] ! (1 * unat (2 :: byte) + unat (2 :: byte) - 1) \<noteq> 0 \<and>
   [9, 6, 8, 4 :: byte] ! (1 * unat (2 :: byte)) = [9, 8] ! 1"
  using generators_shape [where degree = 2 and x = 9 and rnd = "[Byte 4, Byte 0, Byte 5]"
      and p = "[9, 4, 5]" and rnd' = "[]" and k = 2 and secret = "[9, 8]"
      and ?rnd2.0 = "[Byte 1, Byte 0, Byte 3, Byte 4, Byte 6]" and r = "[9, 6, 8, 4]" and rnd2' = "[]"]
    generate_example generateRand_example
  by simp

text \<open>
  Outside the thresholds \<open>k > 1\<close>: with \<open>degree = 0\<close> the buffer has
  \<open>degree - 1 = 255\<close> bytes, and index 0 is also index \<open>degree\<close>, which holds the
  nonzero leading coefficient.
\<close>

lemma generate_degree_0:
  "generate 0 0 (replicate 255 (Byte 3) @ [Byte 7]) = (Inr [7], []) \<and> [7 :: byte] ! 0 \<noteq> 0"
proof -
  have "unat (0 - 1 :: byte) = 255" by (simp add: unsigned_minus_1_eq_mask mask_eq_exp_minus_1)
  moreover have "leading_loop [Byte 7] = (Inr 7, [])" by code_simp
  ultimately show ?thesis
    by (simp add: generate_def ReadFull_replicate)
qed

section \<open>Parameter validation\<close>

lemma ReadFull_length: "length (snd (ReadFull n rnd)) \<le> length rnd"
  by (induction n rnd rule: ReadFull.induct) (auto split: prod.splits sum.splits)

lemma generate_failure:
  "generate d x rnd = (Inl f, rnd') \<Longrightarrow> f = Panic IndexOutOfRange \<or> (\<exists>e. f = Error (ErrIO e))"
  by (auto simp: generate_def Let_def split: if_splits prod.splits sum.splits)

lemma split_loop_failure:
  "split_loop n k bs sh rnd = Some (Inl f, rnd') \<Longrightarrow>
     f = Panic IndexOutOfRange \<or> (\<exists>e. f = Error (ErrIO e))"
proof (induction bs arbitrary: sh rnd)
  case Nil
  then show ?case by simp
next
  case (Cons b bs)
  then show ?case
    by (auto split: prod.splits sum.splits option.splits dest: generate_failure)
qed

text \<open>
  C3. \<open>Split\<close> returns \<open>ErrInvalidThreshold\<close> exactly when \<open>k \<le> 1\<close> and, for \<open>k > 1\<close>,
  \<open>ErrInvalidCount\<close> exactly when \<open>n < k\<close>. In both cases the random source is returned
  untouched (the check precedes every read) and no share map comes back: the result is the
  error alone.
\<close>

theorem Split_validation:
  "(k \<le> 1 \<longrightarrow> Split n k secret rnd = Some (Inl (Error ErrInvalidThreshold), rnd)) \<and>
   (1 < k \<and> n < k \<longrightarrow> Split n k secret rnd = Some (Inl (Error ErrInvalidCount), rnd)) \<and>
   ((\<exists>rnd'. Split n k secret rnd = Some (Inl (Error ErrInvalidThreshold), rnd')) \<longrightarrow> k \<le> 1) \<and>
   (1 < k \<and> (\<exists>rnd'. Split n k secret rnd = Some (Inl (Error ErrInvalidCount), rnd')) \<longrightarrow> n < k)"
proof -
  have a: "k \<le> 1 \<Longrightarrow> Split n k secret rnd = Some (Inl (Error ErrInvalidThreshold), rnd)"
    by (simp add: Split_def)
  have b: "1 < k \<Longrightarrow> n < k \<Longrightarrow> Split n k secret rnd = Some (Inl (Error ErrInvalidCount), rnd)"
    by (simp add: Split_def)
  have c: "k \<le> 1" if "Split n k secret rnd = Some (Inl (Error ErrInvalidThreshold), rnd')" for rnd'
  proof (rule ccontr)
    assume "\<not> k \<le> 1"
    with that have "n < k \<or> split_loop n k secret Map.empty rnd = Some (Inl (Error ErrInvalidThreshold), rnd')"
      by (auto simp: Split_def split: if_splits)
    with that \<open>\<not> k \<le> 1\<close> show False
      by (auto simp: Split_def dest: split_loop_failure)
  qed
  have d: "n < k" if "1 < k" "Split n k secret rnd = Some (Inl (Error ErrInvalidCount), rnd')" for rnd'
  proof (rule ccontr)
    assume "\<not> n < k"
    with that have "split_loop n k secret Map.empty rnd = Some (Inl (Error ErrInvalidCount), rnd')"
      by (auto simp: Split_def split: if_splits)
    then show False by (auto dest: split_loop_failure)
  qed
  from a b c d show ?thesis by blast
qed

theorem Split_validation_witness:
  "Split 5 1 [7, 8] [Byte 3] = Some (Inl (Error ErrInvalidThreshold), [Byte 3]) \<and>
   Split 5 10 [7, 8] [Byte 3] = Some (Inl (Error ErrInvalidCount), [Byte 3])"
  using Split_validation [of 1 5 "[7, 8]" "[Byte 3]"] Split_validation [of 10 5 "[7, 8]" "[Byte 3]"]
  by simp

section \<open>Interpolation as a Lagrange sum\<close>

text \<open>
  The bytes are read as elements of the field type: \<open>A\<close> and \<open>R\<close> are the two
  directions.
\<close>

abbreviation (input) A :: "byte \<Rightarrow> gf256" where "A \<equiv> Abs_gf256"
abbreviation (input) R :: "gf256 \<Rightarrow> byte" where "R \<equiv> Rep_gf256"

lemma R_A [simp]: "R (A b) = b" by (simp add: Abs_gf256_inverse)
lemma A_R [simp]: "A (R b) = b" by (simp add: Rep_gf256_inverse)
lemma A_inj [simp]: "A a = A b \<longleftrightarrow> a = b" by (metis R_A)
lemma A_xor: "A (a XOR b) = A a + A b" by (simp add: plus_gf256.abs_eq)
lemma A_mul: "A (mul a b) = A a * A b" by (simp add: times_gf256.abs_eq)
lemma A_div: "A (mul a (inverse_gf b)) = A a / A b" by (simp add: divide_gf256.abs_eq)
lemma A_inv: "A (inverse_gf b) = inverse (A b)" by (simp add: inverse_gf256.abs_eq)
lemma A_0: "A 0 = 0" by (simp add: zero_gf256_def)
lemma A_1: "A 1 = 1" by (simp add: one_gf256_def)
lemma inj_A: "inj A" by (simp add: inj_on_def)

lemma xor_eq_0_iff: "(a :: byte) XOR b = 0 \<longleftrightarrow> a = b"
proof
  assume z: "a XOR b = 0"
  have "a = a XOR (b XOR b)" by simp
  also have "\<dots> = (a XOR b) XOR b" by (simp only: xor.assoc)
  also have "\<dots> = b" unfolding z by simp
  finally show "a = b" .
qed simp

definition lweight :: "pair list \<Rightarrow> byte \<Rightarrow> pair \<Rightarrow> gf256" where
  "lweight pts x a =
     (\<Prod>b\<leftarrow>filter (\<lambda>b. px b \<noteq> px a) pts. (A x + A (px b)) / (A (px a) + A (px b)))"

definition lsum :: "pair list \<Rightarrow> byte \<Rightarrow> gf256" where
  "lsum pts x = (\<Sum>a\<leftarrow>pts. lweight pts x a * A (py a))"

lemma weight_loop_closed:
  "(\<forall>m<length bs. (i = j + m) = (px (bs ! m) = px a)) \<Longrightarrow>
     weight_loop bs j i a x w = Inr (R (A w * lweight bs x a))"
proof (induction bs arbitrary: j w)
  case Nil
  show ?case by (simp add: lweight_def)
next
  case (Cons b bs)
  from Cons.prems have hd: "(i = j) = (px b = px a)" by fastforce
  have tl: "\<forall>m<length bs. (i = (j + 1) + m) = (px (bs ! m) = px a)"
  proof (intro allI impI)
    fix m assume "m < length bs"
    then have "Suc m < length (b # bs)" by simp
    with Cons.prems have "(i = j + Suc m) = (px ((b # bs) ! Suc m) = px a)" by blast
    then show "(i = (j + 1) + m) = (px (bs ! m) = px a)" by simp
  qed
  show ?case
  proof (cases "i = j")
    case True
    with hd have "px b = px a" by simp
    with True Cons.IH [OF tl] show ?thesis by (simp add: lweight_def)
  next
    case False
    with hd have ne: "px b \<noteq> px a" by simp
    then have nz: "px a XOR px b \<noteq> 0" by (simp add: xor_eq_0_iff)
    have "weight_loop (b # bs) j i a x w
        = weight_loop bs (j + 1) i a x (mul w (mul (x XOR px b) (inverse_gf (px a XOR px b))))"
      using False nz by (simp add: div_gf_def)
    also have "\<dots> = Inr (R (A (mul w (mul (x XOR px b) (inverse_gf (px a XOR px b)))) * lweight bs x a))"
      by (rule Cons.IH [OF tl])
    also have "A (mul w (mul (x XOR px b) (inverse_gf (px a XOR px b)))) * lweight bs x a
        = A w * lweight (b # bs) x a"
      using ne by (simp add: lweight_def A_mul A_inv A_xor divide_inverse mult_ac)
    finally show ?thesis .
  qed
qed

lemma interpolate_loop_closed:
  assumes "distinct (map px pts)"
  shows "i + length as = length pts \<Longrightarrow> as = drop i pts \<Longrightarrow>
     interpolate_loop pts as i x v = Inr (R (A v + (\<Sum>a\<leftarrow>as. lweight pts x a * A (py a))))"
proof (induction as arbitrary: i v)
  case Nil
  show ?case by simp
next
  case (Cons a as)
  have i: "i < length pts"
  proof (rule ccontr)
    assume "\<not> i < length pts"
    then have "drop i pts = []" by simp
    with Cons.prems(2) show False by simp
  qed
  from Cons_nth_drop_Suc [OF i] Cons.prems(2) have "a # as = pts ! i # drop (Suc i) pts"
    by simp
  then have a: "a = pts ! i" and as: "as = drop (Suc i) pts"
    by simp_all
  have "\<forall>m<length pts. (i = 0 + m) = (px (pts ! m) = px a)"
    using assms i a by (auto simp: distinct_conv_nth)
  from weight_loop_closed [OF this, of x 1]
  have w: "weight_loop pts 0 i a x 1 = Inr (R (lweight pts x a))" by (simp add: A_1)
  have "interpolate_loop pts as (i + 1) x (v XOR mul (R (lweight pts x a)) (py a))
      = Inr (R (A (v XOR mul (R (lweight pts x a)) (py a)) + (\<Sum>a\<leftarrow>as. lweight pts x a * A (py a))))"
    using Cons.prems as by (intro Cons.IH) simp_all
  with w show ?case by (simp add: A_xor A_mul add.assoc)
qed

lemma interpolate_closed:
  "distinct (map px pts) \<Longrightarrow> interpolate pts x = Inr (R (lsum pts x))"
  using interpolate_loop_closed [of pts 0 pts x 0]
  by (simp add: interpolate_def lsum_def A_0)

lemma lweight_mset: assumes "mset pts' = mset pts" shows "lweight pts' x a = lweight pts x a"
proof -
  let ?g = "\<lambda>b. (A x + A (px b)) / (A (px a) + A (px b))"
  let ?P = "\<lambda>b. px b \<noteq> px a"
  have "mset (filter ?P pts') = mset (filter ?P pts)"
    using assms by (simp only: mset_filter)
  then have "mset (map ?g (filter ?P pts')) = mset (map ?g (filter ?P pts))"
    by (simp only: mset_map)
  then have "prod_mset (mset (map ?g (filter ?P pts'))) = prod_mset (mset (map ?g (filter ?P pts)))"
    by simp
  then show ?thesis unfolding lweight_def by (simp only: prod_mset_prod_list)
qed

lemma lsum_mset: assumes "mset pts' = mset pts" shows "lsum pts' x = lsum pts x"
proof -
  let ?g = "\<lambda>a. lweight pts x a * A (py a)"
  have 1: "lsum pts' x = sum_list (map ?g pts')"
    by (simp only: lsum_def lweight_mset [OF assms])
  have 2: "sum_list (map ?g pts') = sum_mset (mset (map ?g pts'))"
    by (simp only: sum_mset_sum_list)
  have 3: "mset (map ?g pts') = mset (map ?g pts)"
    using assms by (simp only: mset_map)
  have 4: "sum_mset (mset (map ?g pts)) = lsum pts x"
    by (simp only: lsum_def sum_mset_sum_list)
  show ?thesis unfolding 1 2 3 4 ..
qed

lemma interpolate_permute:
  assumes "distinct (map px pts)" "mset pts' = mset pts"
  shows "interpolate pts' x = interpolate pts x"
proof -
  from assms(2) have "mset (map px pts') = mset (map px pts)" by (simp only: mset_map)
  from mset_eq_imp_distinct_iff [OF this] assms(1) have "distinct (map px pts')" by simp
  with assms(1) show ?thesis by (simp add: interpolate_closed lsum_mset [OF assms(2)])
qed

section \<open>Combine on share sets\<close>

definition share_points :: "shares \<Rightarrow> byte list \<Rightarrow> nat \<Rightarrow> pair list" where
  "share_points sh ks i = map (\<lambda>k. \<lparr>px = k, py = the (sh k) ! i\<rparr>) ks"

lemma entries_dom: "set ks \<subseteq> dom sh \<Longrightarrow> entries sh ks = map (\<lambda>k. (k, the (sh k))) ks"
  by (induction ks) (auto simp: entries_def List.map_filter_simps)

lemma points_at_ok:
  "(\<forall>k\<in>set ks. i < length (the (sh k))) \<Longrightarrow>
     points_at (map (\<lambda>k. (k, the (sh k))) ks) i = Inr (share_points sh ks i)"
  by (induction ks) (simp_all add: share_points_def)

lemma share_points_px: "map px (share_points sh ks i) = ks"
  by (simp add: share_points_def comp_def)

lemma fold_update_inside:
  "j \<in> set is \<Longrightarrow> j < length r \<Longrightarrow> fold (\<lambda>i r. r[i := g i]) is r ! j = g j"
proof (induction "is" arbitrary: r)
  case Nil
  then show ?case by simp
next
  case (Cons i "is")
  show ?case
  proof (cases "j \<in> set is")
    case True
    with Cons show ?thesis by simp
  next
    case False
    with Cons.prems have "j = i" by simp
    with False Cons.prems show ?thesis by (simp add: fold_update_outside)
  qed
qed

lemma fold_update_upt:
  "length s = L \<Longrightarrow> fold (\<lambda>i r. r[i := g i]) [0..<L] s = map g [0..<L]"
  by (rule nth_equalityI) (simp_all add: fold_update_length fold_update_inside)

lemma combine_loop_closed:
  assumes "\<forall>t. enumerates (ord t) sh" "\<forall>k\<in>dom sh. length (the (sh k)) = L"
  shows "(\<forall>i\<in>set is. i < L) \<Longrightarrow>
     combine_loop ord sh is secret =
       Inr (fold (\<lambda>i r. r[i := R (lsum (share_points sh (ord (Suc i)) i) 0)]) is secret)"
proof (induction "is" arbitrary: secret)
  case Nil
  show ?case by simp
next
  case (Cons i "is")
  from assms(1) have en: "distinct (ord (Suc i))" "set (ord (Suc i)) = dom sh"
    by (simp_all add: enumerates_def)
  from Cons.prems have i: "i < L" by simp
  have "entries sh (ord (Suc i)) = map (\<lambda>k. (k, the (sh k))) (ord (Suc i))"
    using en(2) by (intro entries_dom) simp
  moreover have "\<forall>k\<in>set (ord (Suc i)). i < length (the (sh k))"
    using en(2) assms(2) i by simp
  ultimately have pa: "points_at (entries sh (ord (Suc i))) i = Inr (share_points sh (ord (Suc i)) i)"
    by (simp add: points_at_ok)
  have "distinct (map px (share_points sh (ord (Suc i)) i))"
    using en(1) by (simp only: share_points_px)
  then have ip: "interpolate (share_points sh (ord (Suc i)) i) 0
      = Inr (R (lsum (share_points sh (ord (Suc i)) i) 0))"
    by (rule interpolate_closed)
  from Cons.prems have "\<forall>i\<in>set is. i < L" by simp
  from Cons.IH [OF this] pa ip show ?case by simp
qed

lemma Combine_closed:
  assumes "\<forall>t. enumerates (ord t) sh" "\<forall>k\<in>dom sh. length (the (sh k)) = L" "dom sh \<noteq> {}"
  shows "Combine ord sh = Inr (map (\<lambda>i. R (lsum (share_points sh (ord (Suc i)) i) 0)) [0..<L])"
proof -
  from assms(1) have en: "set (ord 0) = dom sh" by (simp add: enumerates_def)
  with assms(3) obtain k ks where ord0: "ord 0 = k # ks" by (cases "ord 0") auto
  with en have k: "k \<in> dom sh" by auto
  have "entries sh (ord 0) = map (\<lambda>k. (k, the (sh k))) (ord 0)"
    using en by (intro entries_dom) simp
  then have "entries sh (ord 0) = (k, the (sh k)) # map (\<lambda>k. (k, the (sh k))) ks"
    by (simp add: ord0)
  then have "Combine ord sh = combine_loop ord sh [0..<L] (replicate L 0)"
    using assms(2) k by (simp add: Combine_def)
  also have "\<dots> = Inr (fold (\<lambda>i r. r[i := R (lsum (share_points sh (ord (Suc i)) i) 0)]) [0..<L] (replicate L 0))"
    by (rule combine_loop_closed [OF assms(1,2)]) simp
  finally show ?thesis by (simp add: fold_update_upt)
qed

lemma Combine_empty: "Combine ord Map.empty = Inr []"
  by (simp add: Combine_def entries_def List.map_filter_def)

lemma lsum_share_points:
  assumes "enumerates ks sh" "enumerates ks' sh"
  shows "lsum (share_points sh ks' i) x = lsum (share_points sh ks i) x"
proof -
  from assms have "mset ks' = mset ks"
    by (simp add: enumerates_def set_eq_iff_mset_eq_distinct [symmetric])
  then have "mset (share_points sh ks' i) = mset (share_points sh ks i)"
    unfolding share_points_def by (simp only: mset_map)
  then show ?thesis by (rule lsum_mset)
qed

lemma Combine_order:
  assumes "\<forall>t. enumerates (ord t) sh" "\<forall>t. enumerates (ord' t) sh"
    "\<forall>k\<in>dom sh. length (the (sh k)) = L"
  shows "Combine ord sh = Combine ord' sh"
proof (cases "dom sh = {}")
  case True
  then have "sh = Map.empty" by simp
  then show ?thesis by (simp add: Combine_empty)
next
  case False
  have "lsum (share_points sh (ord (Suc i)) i) 0 = lsum (share_points sh (ord' (Suc i)) i) 0" for i
    using assms(1,2) by (intro lsum_share_points) simp_all
  then show ?thesis
    by (simp add: Combine_closed [OF assms(1) assms(3) False] Combine_closed [OF assms(2) assms(3) False])
qed

text \<open>
  C6. For points with distinct share IDs, \<open>interpolate\<close> at 0 returns a value, and the
  same value for every permutation of the list of points. Hence \<open>Combine\<close> of a share set
  (shares of one length) is the same whatever orders the map is enumerated in.
\<close>

theorem interpolate_order_independent:
  "(distinct (map px pts) \<and> mset pts' = mset pts \<longrightarrow>
      interpolate pts' 0 = interpolate pts 0 \<and> (\<exists>v. interpolate pts 0 = Inr v)) \<and>
   ((\<forall>t. enumerates (ord t) sh) \<and> (\<forall>t. enumerates (ord' t) sh) \<and>
    (\<forall>k v. sh k = Some v \<longrightarrow> length v = L) \<longrightarrow>
      Combine ord sh = Combine ord' sh)"
proof (rule conjI; rule impI)
  assume a: "distinct (map px pts) \<and> mset pts' = mset pts"
  then have "interpolate pts' 0 = interpolate pts 0" by (intro interpolate_permute) simp_all
  moreover from a have "interpolate pts 0 = Inr (R (lsum pts 0))" by (intro interpolate_closed) simp
  ultimately show "interpolate pts' 0 = interpolate pts 0 \<and> (\<exists>v. interpolate pts 0 = Inr v)"
    by simp
next
  assume a: "(\<forall>t. enumerates (ord t) sh) \<and> (\<forall>t. enumerates (ord' t) sh) \<and>
    (\<forall>k v. sh k = Some v \<longrightarrow> length v = L)"
  then have "\<forall>k\<in>dom sh. length (the (sh k)) = L" by auto
  with a show "Combine ord sh = Combine ord' sh" by (intro Combine_order [where L = L]) simp_all
qed

theorem interpolate_order_independent_witness:
  "interpolate [\<lparr>px = 2, py = 9\<rparr>, \<lparr>px = 1, py = 5\<rparr>] 0
     = interpolate [\<lparr>px = 1, py = 5\<rparr>, \<lparr>px = 2, py = 9\<rparr>] 0 \<and>
   Combine (\<lambda>t. [1, 2]) [1 \<mapsto> [5], 2 \<mapsto> [9]] = Combine (\<lambda>t. [2, 1]) [1 \<mapsto> [5], 2 \<mapsto> [9]]"
  using interpolate_order_independent [of "[\<lparr>px = 1, py = 5\<rparr>, \<lparr>px = 2, py = 9\<rparr>]"
      "[\<lparr>px = 2, py = 9\<rparr>, \<lparr>px = 1, py = 5\<rparr>]" "\<lambda>t. [1, 2]" "[1 \<mapsto> [5], 2 \<mapsto> [9]]" "\<lambda>t. [2, 1]" 1]
  by (auto simp: enumerates_def split: if_splits)

lemma Combine_unequal_examples:
  "Combine (\<lambda>t. [1, 2]) [1 \<mapsto> [5], 2 \<mapsto> [9, 7]] = Inr [1]"
  "Combine (\<lambda>t. [2, 1]) [1 \<mapsto> [5], 2 \<mapsto> [9, 7]] = Inl (Panic IndexOutOfRange)"
  by code_simp+

text \<open>
  C9. On a non-empty map whose shares all have length \<open>L\<close>, \<open>Combine\<close> returns (no
  panic) a byte sequence of length \<open>L\<close>; on the empty map it returns the empty sequence.
  With shares of different lengths the outcome depends on the share enumerated first: for the
  shares \<open>1 \<mapsto> [5]\<close>, \<open>2 \<mapsto> [9, 7]\<close>, starting with share 1 gives one byte, starting with
  share 2 indexes share 1 out of range.
\<close>

theorem Combine_equal_lengths:
  "((\<forall>t. enumerates (ord t) sh) \<and> dom sh \<noteq> {} \<and> (\<forall>k v. sh k = Some v \<longrightarrow> length v = L) \<longrightarrow>
      (\<exists>secret. Combine ord sh = Inr secret \<and> length secret = L)) \<and>
   Combine ord Map.empty = Inr [] \<and>
   Combine (\<lambda>t. [1, 2]) [1 \<mapsto> [5], 2 \<mapsto> [9, 7]] = Inr [1] \<and>
   Combine (\<lambda>t. [2, 1]) [1 \<mapsto> [5], 2 \<mapsto> [9, 7]] = Inl (Panic IndexOutOfRange)"
proof (intro conjI impI)
  assume a: "(\<forall>t. enumerates (ord t) sh) \<and> dom sh \<noteq> {} \<and> (\<forall>k v. sh k = Some v \<longrightarrow> length v = L)"
  then have "\<forall>k\<in>dom sh. length (the (sh k)) = L" by auto
  with a have "Combine ord sh = Inr (map (\<lambda>i. R (lsum (share_points sh (ord (Suc i)) i) 0)) [0..<L])"
    by (intro Combine_closed [where L = L]) simp_all
  then show "\<exists>secret. Combine ord sh = Inr secret \<and> length secret = L" by simp
qed (simp_all add: Combine_empty Combine_unequal_examples)

theorem Combine_equal_lengths_witness:
  "\<exists>secret. Combine (\<lambda>t. [1, 2]) [1 \<mapsto> [5], 2 \<mapsto> [9]] = Inr secret \<and> length secret = 1"
  using Combine_equal_lengths [of "\<lambda>t. [1, 2]" "[1 \<mapsto> [5], 2 \<mapsto> [9]]" 1]
  by (auto simp: enumerates_def split: if_splits)

section \<open>The share map of Split\<close>

definition add_evals :: "byte \<Rightarrow> byte \<Rightarrow> byte list \<Rightarrow> shares \<Rightarrow> shares" where
  "add_evals n x p sh =
     (\<lambda>y. if x \<le> y \<and> y \<le> n then Some ((case sh y of None \<Rightarrow> [] | Some v \<Rightarrow> v) @ [eval p y])
          else sh y)"

lemma byte_le_255: "x \<le> (255 :: byte)"
  by (simp add: word_le_nat_alt) (use unsigned_less [of x, where 'a = nat] in simp)

lemma byte_neq_255: "(n :: byte) \<noteq> 255 \<Longrightarrow> unat n < 255"
  by (simp add: word_unat_eq_iff) (use unsigned_less [of n, where 'a = nat] in simp)

lemma share_loop_returns:
  assumes "share_loop n p x sh = Some sh'"
  shows "n \<noteq> 255"
proof (rule share_loop.raw_induct [where xa = "(((n, p), x), sh)" and P = "\<lambda>n p x sh y. n \<noteq> 255"
      and y = sh', simplified, OF _ assms])
  fix f :: "byte \<Rightarrow> byte list \<Rightarrow> byte \<Rightarrow> shares \<Rightarrow> shares option" and n p x sh r
  assume ih: "\<And>n p x sh y. f n p x sh = Some y \<Longrightarrow> n \<noteq> 255"
    and eq: "(if x \<le> n then f n p (x + 1) (append_share sh x (eval p x)) else Some sh) = Some r"
  show "n \<noteq> 255"
  proof (cases "x \<le> n")
    case True
    with eq ih show ?thesis by simp
  next
    case False
    with byte_le_255 [of x] show ?thesis by auto
  qed
qed

lemma share_loop_255: "share_loop 255 p x sh = None"
  using share_loop_returns [of 255 p x sh] by (cases "share_loop 255 p x sh") auto

lemma share_loop_closed:
  "n \<noteq> 255 \<Longrightarrow> share_loop n p x sh = Some (add_evals n x p sh)"
proof (induction "unat n + 1 - unat x" arbitrary: x sh)
  case 0
  then have "\<not> x \<le> n" by (simp add: word_le_nat_alt)
  then have "add_evals n x p sh = sh" by (auto simp: add_evals_def fun_eq_iff)
  with \<open>\<not> x \<le> n\<close> show ?case by (subst share_loop.simps) simp
next
  case (Suc d)
  then have le: "x \<le> n" by (simp add: word_le_nat_alt)
  have "unat n < 255" using Suc.prems by (rule byte_neq_255)
  with le have ux: "unat x < 255" by (simp add: word_le_nat_alt)
  then have x1: "unat (x + 1) = unat x + 1" by (simp add: unat_word_ariths)
  with Suc.hyps(2) have "d = unat n + 1 - unat (x + 1)" by simp
  from Suc.hyps(1) [OF this Suc.prems]
  have "share_loop n p (x + 1) (append_share sh x (eval p x))
      = Some (add_evals n (x + 1) p (append_share sh x (eval p x)))" .
  moreover have "add_evals n (x + 1) p (append_share sh x (eval p x)) = add_evals n x p sh"
  proof (rule ext)
    fix y
    have "x + 1 \<le> y \<longleftrightarrow> x \<le> y \<and> y \<noteq> x"
      using x1 by (auto simp: word_le_nat_alt word_unat_eq_iff)
    with le show "add_evals n (x + 1) p (append_share sh x (eval p x)) y = add_evals n x p sh y"
      by (auto simp: add_evals_def append_share_def)
  qed
  ultimately show ?case using le by (subst share_loop.simps) simp
qed


lemma horner_0: "horner (c # cs) 0 = c" by simp



lemma fold_add_evals:
  "fold (add_evals n 1) polys sh =
     (\<lambda>y. if 1 \<le> y \<and> y \<le> n \<and> polys \<noteq> []
          then Some ((case sh y of None \<Rightarrow> [] | Some v \<Rightarrow> v) @ map (\<lambda>p. eval p y) polys)
          else sh y)"
proof (induction polys arbitrary: sh)
  case Nil
  show ?case by simp
next
  case (Cons p polys)
  show ?case
    by (rule ext) (simp add: Cons.IH, simp add: add_evals_def)
qed

lemma split_loop_Inr:
  "split_loop n k bs sh rnd = Some (Inr m, rnd') \<Longrightarrow> 2 \<le> k \<Longrightarrow>
     \<exists>polys. length polys = length bs \<and>
       (\<forall>i<length bs. length (polys ! i) = unat k \<and> polys ! i ! 0 = bs ! i) \<and>
       m = fold (add_evals n 1) polys sh \<and> (bs \<noteq> [] \<longrightarrow> n \<noteq> 255)"
proof (induction bs arbitrary: sh rnd)
  case Nil
  then show ?case by simp
next
  case (Cons b bs)
  from Cons.prems(1) obtain p rnd1 sh1 where
    g: "generate (k - 1) b rnd = (Inr p, rnd1)" and
    s: "share_loop n p 1 sh = Some sh1" and
    r: "split_loop n k bs sh1 rnd1 = Some (Inr m, rnd')"
    by (auto split: prod.splits sum.splits option.splits)
  from Cons.prems(2) have k2: "2 \<le> unat k" by (simp add: word_le_nat_alt)
  then have k1: "unat (k - 1) = unat k - 1" by (simp add: unat_sub_if')
  with k2 have "1 \<le> k - 1" by (simp add: word_le_nat_alt)
  from generate_shape [OF this g] k1 k2 have p: "length p = unat k" "p ! 0 = b" by simp_all
  from s have n: "n \<noteq> 255" by (rule share_loop_returns)
  with s have sh1: "sh1 = add_evals n 1 p sh" by (simp add: share_loop_closed)
  from Cons.IH [OF r Cons.prems(2)] obtain polys where polys:
    "length polys = length bs" "\<forall>i<length bs. length (polys ! i) = unat k \<and> polys ! i ! 0 = bs ! i"
    "m = fold (add_evals n 1) polys sh1" by blast
  have "\<forall>i<length (b # bs). length ((p # polys) ! i) = unat k \<and> (p # polys) ! i ! 0 = (b # bs) ! i"
    using p polys(2) by (auto simp: nth_Cons split: nat.splits)
  with polys(1,3) sh1 n show ?case
    by (intro exI [of _ "p # polys"]) simp
qed

lemma split_loop_total: "n \<noteq> 255 \<Longrightarrow> \<exists>r. split_loop n k bs sh rnd = Some r"
proof (induction bs arbitrary: sh rnd)
  case Nil
  show ?case by simp
next
  case (Cons b bs)
  then show ?case
    by (auto simp: share_loop_closed split: prod.splits sum.splits)
qed

lemma Split_Inr:
  assumes "1 < k" "k \<le> n" "Split n k secret rnd = Some (Inr m, rnd')"
  shows "\<exists>polys. length polys = length secret \<and>
     (\<forall>i<length secret. length (polys ! i) = unat k \<and> polys ! i ! 0 = secret ! i) \<and>
     m = (\<lambda>y. if 1 \<le> y \<and> y \<le> n \<and> secret \<noteq> [] then Some (map (\<lambda>p. eval p y) polys) else None) \<and>
     (secret \<noteq> [] \<longrightarrow> n \<noteq> 255)"
proof -
  from assms(1) have k2: "2 \<le> k" by (simp add: word_le_nat_alt word_less_nat_alt)
  from assms(1,2) have "\<not> k \<le> 1" "\<not> n < k" by (simp_all add: not_le not_less)
  with assms(3) have "split_loop n k secret Map.empty rnd = Some (Inr m, rnd')"
    by (simp add: Split_def)
  from split_loop_Inr [OF this k2] obtain polys where polys:
    "length polys = length secret"
    "\<forall>i<length secret. length (polys ! i) = unat k \<and> polys ! i ! 0 = secret ! i"
    "m = fold (add_evals n 1) polys Map.empty" "secret \<noteq> [] \<longrightarrow> n \<noteq> 255"
    by blast
  from polys(1) have "polys \<noteq> [] \<longleftrightarrow> secret \<noteq> []" by auto
  with polys(3) have "m = (\<lambda>y. if 1 \<le> y \<and> y \<le> n \<and> secret \<noteq> [] then Some (map (\<lambda>p. eval p y) polys) else None)"
    by (auto simp: fold_add_evals fun_eq_iff)
  with polys show ?thesis by blast
qed

lemma card_byte_range: "card {x :: byte. 1 \<le> x \<and> x \<le> n} = unat n"
proof -
  have un: "unat (word_of_nat i :: byte) = i" if "i \<le> unat n" for i
  proof -
    have "unat n < 256" using unsigned_less [of n, where 'a = nat] by simp
    with that show ?thesis by (simp add: unat_of_nat)
  qed
  have "{x :: byte. 1 \<le> x \<and> x \<le> n} = word_of_nat ` {1..unat n}"
  proof (intro set_eqI iffI)
    fix x :: byte assume "x \<in> {x. 1 \<le> x \<and> x \<le> n}"
    then have "unat x \<in> {1..unat n}" by (simp add: word_le_nat_alt)
    moreover have "x = word_of_nat (unat x)" by simp
    ultimately show "x \<in> word_of_nat ` {1..unat n}" by (rule rev_image_eqI)
  next
    fix x :: byte assume "x \<in> word_of_nat ` {1..unat n}"
    then obtain i where i: "1 \<le> i" "i \<le> unat n" "x = word_of_nat i" by auto
    with un [of i] show "x \<in> {x. 1 \<le> x \<and> x \<le> n}" by (simp add: word_le_nat_alt)
  qed
  moreover have "inj_on (word_of_nat :: nat \<Rightarrow> byte) {1..unat n}"
    by (rule inj_on_inverseI [where g = unat]) (simp add: un)
  ultimately show ?thesis by (simp add: card_image)
qed

lemma Split_total: "n \<noteq> 255 \<Longrightarrow> \<exists>r. Split n k secret rnd = Some r"
  using split_loop_total [of n k secret Map.empty rnd] by (simp add: Split_def)

lemma generate_ones:
  assumes "1 \<le> d" "d \<noteq> 255"
  shows "\<exists>p. generate d b (replicate (unat d) (Byte 1) @ rest) = (Inr p, rest)"
proof -
  from assms(1) have d1: "1 \<le> unat d" by (simp add: word_le_nat_alt)
  then have dm: "unat (d - 1) = unat d - 1" by (simp add: unat_sub_if')
  from assms(2) have "unat d < 255" by (rule byte_neq_255)
  then have dp: "unat (d + 1) = unat d + 1" by (simp add: unat_word_ariths)
  from d1 have "replicate (unat d) (Byte 1) @ rest = replicate (unat d - 1) (Byte 1) @ (Byte 1 # rest)"
    by (metis Suc_pred' less_eq_Suc_le replicate_Suc replicate_app_Cons_same append_Cons One_nat_def)
  then have rf: "ReadFull (unat (d - 1)) (replicate (unat d) (Byte 1) @ rest)
      = (Inr (replicate (unat d - 1) 1), Byte 1 # rest)"
    by (simp only: dm ReadFull_replicate)
  have ll: "leading_loop (Byte 1 # rest) = (Inr 1, rest)"
    by (subst leading_loop.simps) simp
  show ?thesis by (simp add: generate_def Let_def dp rf ll)
qed

lemma split_loop_ones:
  assumes "n \<noteq> 255" "2 \<le> k"
  shows "\<exists>m. split_loop n k bs sh (replicate (length bs * unat (k - 1)) (Byte 1)) = Some (Inr m, [])"
proof (induction bs arbitrary: sh)
  case Nil
  show ?case by simp
next
  case (Cons b bs)
  from assms(2) have k2: "2 \<le> unat k" by (simp add: word_le_nat_alt)
  then have km: "unat (k - 1) = unat k - 1" by (simp add: unat_sub_if')
  with k2 have d1: "1 \<le> k - 1" by (simp add: word_le_nat_alt)
  have "unat k < 256" using unsigned_less [of k, where 'a = nat] by simp
  with km k2 have "unat (k - 1) \<noteq> 255" by simp
  then have d2: "k - 1 \<noteq> 255" by auto
  have "replicate (length (b # bs) * unat (k - 1)) (Byte 1)
      = replicate (unat (k - 1)) (Byte 1) @ replicate (length bs * unat (k - 1)) (Byte 1)"
    by (simp add: replicate_add [symmetric])
  moreover from generate_ones [OF d1 d2] obtain p where
    "generate (k - 1) b (replicate (unat (k - 1)) (Byte 1) @ replicate (length bs * unat (k - 1)) (Byte 1))
       = (Inr p, replicate (length bs * unat (k - 1)) (Byte 1))" by blast
  ultimately show ?case
    using Cons.IH assms(1) by (simp add: share_loop_closed del: replicate.simps)
qed

lemma Split_succeeds:
  assumes "n \<noteq> 255" "1 < k" "k \<le> n"
  shows "\<exists>m. Split n k secret (replicate (length secret * unat (k - 1)) (Byte 1)) = Some (Inr m, [])"
proof -
  from assms(2) have "2 \<le> k" by (simp add: word_le_nat_alt word_less_nat_alt)
  from split_loop_ones [OF assms(1) this] assms(2,3) show ?thesis
    by (simp add: Split_def not_le not_less)
qed

text \<open>
  C2, as amended. For a non-empty secret and valid \<open>(n, k)\<close>, the map that \<open>Split\<close>
  returns has exactly \<open>n\<close> keys, the share IDs \<open>1..n\<close>, and every share has the length of
  the secret. For the empty secret \<open>Split\<close> returns the empty map: the keys are created by
  the appends, one per byte of the secret. For \<open>n < 255\<close> the call always returns, and
  it returns a share map when the random source delivers enough nonzero bytes.
\<close>

theorem Split_shares:
  "(1 < k \<and> k \<le> n \<and> secret \<noteq> [] \<and> Split n k secret rnd = Some (Inr m, rnd') \<longrightarrow>
      dom m = {x. 1 \<le> x \<and> x \<le> n} \<and> card (dom m) = unat n \<and>
      (\<forall>x v. m x = Some v \<longrightarrow> length v = length secret)) \<and>
   (1 < k \<and> k \<le> n \<longrightarrow> Split n k [] rnd = Some (Inr Map.empty, rnd)) \<and>
   (n \<noteq> 255 \<longrightarrow> (\<exists>r. Split n k secret rnd = Some r)) \<and>
   (n \<noteq> 255 \<and> 1 < k \<and> k \<le> n \<longrightarrow>
      (\<exists>m. Split n k secret (replicate (length secret * unat (k - 1)) (Byte 1)) = Some (Inr m, [])))"
proof (intro conjI impI)
  assume a: "1 < k \<and> k \<le> n \<and> secret \<noteq> [] \<and> Split n k secret rnd = Some (Inr m, rnd')"
  then obtain polys where polys: "length polys = length secret"
    "m = (\<lambda>y. if 1 \<le> y \<and> y \<le> n \<and> secret \<noteq> [] then Some (map (\<lambda>p. eval p y) polys) else None)"
    using Split_Inr [of k n secret rnd m rnd'] by blast
  from a polys(2) have d: "dom m = {x. 1 \<le> x \<and> x \<le> n}" by (auto simp: dom_def)
  then show "dom m = {x. 1 \<le> x \<and> x \<le> n}" .
  from d show "card (dom m) = unat n" by (simp only: card_byte_range)
  from polys show "\<forall>x v. m x = Some v \<longrightarrow> length v = length secret"
    by (auto split: if_splits)
next
  assume "1 < k \<and> k \<le> n"
  then show "Split n k [] rnd = Some (Inr Map.empty, rnd)" by (auto simp: Split_def)
next
  assume "n \<noteq> 255"
  then show "\<exists>r. Split n k secret rnd = Some r" by (rule Split_total)
next
  assume "n \<noteq> 255 \<and> 1 < k \<and> k \<le> n"
  then show "\<exists>m. Split n k secret (replicate (length secret * unat (k - 1)) (Byte 1)) = Some (Inr m, [])"
    by (intro Split_succeeds) simp_all
qed

lemma eval_examples:
  "eval [7, 5] 1 = 2" "eval [7, 5] 2 = 13" "eval [7, 5] 3 = 8"
  by code_simp+

lemma generate_example_1: "generate 1 7 [Byte 5] = (Inr [7, 5], [])"
  by code_simp

lemma Split_example:
  "Split 3 2 [7] [Byte 5] = Some (Inr [1 \<mapsto> [2], 2 \<mapsto> [13], 3 \<mapsto> [8]], [])"
  by (simp add: Split_def generate_example_1 share_loop.simps append_share_def eval_examples
      word_le_nat_alt word_less_nat_alt)

theorem Split_shares_witness:
  "Split 3 2 [7] [Byte 5] = Some (Inr [1 \<mapsto> [2], 2 \<mapsto> [13], 3 \<mapsto> [8]], []) \<and>
   dom [1 \<mapsto> [2 :: byte], 2 \<mapsto> [13], 3 \<mapsto> [8]] = {x :: byte. 1 \<le> x \<and> x \<le> 3} \<and>
   card (dom [(1 :: byte) \<mapsto> [2 :: byte], 2 \<mapsto> [13], 3 \<mapsto> [8]]) = unat (3 :: byte) \<and>
   Split 3 2 [] [Byte 5] = Some (Inr Map.empty, [Byte 5])"
proof -
  have h: "(1 :: byte) < 2 \<and> (2 :: byte) \<le> 3 \<and> [7 :: byte] \<noteq> []"
    by (simp add: word_less_nat_alt word_le_nat_alt)
  from Split_shares [where k = 2 and n = 3 and secret = "[7]" and rnd = "[Byte 5]"
      and m = "[1 \<mapsto> [2], 2 \<mapsto> [13], 3 \<mapsto> [8]]" and rnd' = "[]"] h Split_example
  show ?thesis by blast
qed

text \<open>The empty secret: no byte, no append, no key.\<close>

theorem Split_empty_secret_counterexample:
  "Split 2 2 [] [] = Some (Inr Map.empty, []) \<and> card (dom (Map.empty :: shares)) \<noteq> unat (2 :: byte)"
  by (simp add: Split_def word_le_nat_alt)

text \<open>
  With \<open>n = 255\<close> and a secret that is not empty, \<open>Split\<close> does not return once the
  first polynomial is there: the byte counter of the inner loop wraps around.
\<close>

lemma Split_255:
  "generate (k - 1) b rnd = (Inr p, rnd') \<Longrightarrow> 1 < k \<Longrightarrow> Split 255 k (b # bs) rnd = None"
  using byte_le_255 [of k] by (simp add: Split_def share_loop_255 not_less not_le)

section \<open>Splitting and combining\<close>


lemma Combine_example: "Combine (\<lambda>t. [3, 1]) [1 \<mapsto> [2], 3 \<mapsto> [8]] = Inr [7]"
  by code_simp


end
